theory Spec2Isabelle
  imports Main "HOL-Library.Word" "HOL-Library.Sublist"
begin

section \<open>The pipelining test server \<^verbatim>\<open>http_server.cpp\<close>\<close>

text \<open>
  The development embeds the server of \<^verbatim>\<open>src/http_server.cpp\<close>: the boundary matcher
  (\<^verbatim>\<open>class parser\<close>), the header extractor (\<^verbatim>\<open>class header\<close>), the pending reply
  (\<^verbatim>\<open>class Reply\<close>), the connection (\<^verbatim>\<open>class tcp_connection\<close>) and the listener
  (\<^verbatim>\<open>class tcp_server\<close>, \<^verbatim>\<open>main\<close>). Bytes are \<^typ>\<open>char\<close> (8 bits, as the C++ \<^verbatim>\<open>char\<close>),
  \<^verbatim>\<open>std::string\<close> is \<^typ>\<open>string\<close>, \<^verbatim>\<open>int\<close> is a 32-bit word read by \<open>sint\<close> and
  \<^verbatim>\<open>unsigned long\<close> a 64-bit word (LP64). The diagnostics written to \<^verbatim>\<open>std::cout\<close>
  are not part of the model.
\<close>

subsection \<open>Bytes\<close>

abbreviation CR :: char where "CR \<equiv> CHR 0x0D"
abbreviation LF :: char where "LF \<equiv> CHR 0x0A"
abbreviation NUL :: char where "NUL \<equiv> CHR 0x00"

text \<open>The four bytes \<^verbatim>\<open>"\r\n\r\n"\<close> and the two bytes \<^verbatim>\<open>"\r\n"\<close>.\<close>

abbreviation CRLF :: string where "CRLF \<equiv> [CR, LF]"
abbreviation CRLFCRLF :: string where "CRLFCRLF \<equiv> [CR, LF, CR, LF]"

subsection \<open>Boundary matcher: \<^verbatim>\<open>class parser\<close>\<close>

text \<open>
  \<^verbatim>\<open>m_ptr\<close> is an iterator into \<^verbatim>\<open>m_str\<close>; it is modelled by its offset from
  \<^verbatim>\<open>m_str.begin()\<close>, so \<^verbatim>\<open>m_str.end()\<close> is the offset \<open>length m_str\<close>.
\<close>

record parser =
  m_str :: string
  m_match :: bool
  m_ptr :: nat

text \<open>\<^verbatim>\<open>void reset(void) { m_match = false; m_ptr = m_str.begin(); }\<close>\<close>

definition parser_reset :: "parser \<Rightarrow> parser" where
  "parser_reset p = p\<lparr>m_match := False, m_ptr := 0\<rparr>"

text \<open>\<^verbatim>\<open>parser(std::string const& str) : m_str(str) { reset(); }\<close>\<close>

definition parser_init :: "string \<Rightarrow> parser" where
  "parser_init str = parser_reset \<lparr>m_str = str, m_match = False, m_ptr = 0\<rparr>"

text \<open>
  \<^verbatim>\<open>*m_ptr\<close>. Inside the string it is the byte at the cursor. At \<^verbatim>\<open>m_str.end()\<close> the
  read lands on the terminating NUL that \<^verbatim>\<open>std::string\<close> keeps behind its last byte;
  the connection resets the matcher after every match, so the cursor of its matcher is
  never at the end when a byte is fed (lemma \<open>eom_ok_read_byte\<close> below).
\<close>

definition parser_deref :: "parser \<Rightarrow> char" where
  "parser_deref p = (if m_ptr p < length (m_str p) then m_str p ! m_ptr p else NUL)"

text \<open>
  \<^verbatim>\<open>
  void parser::feed(char c)
  {
    if (c != *m_ptr) { reset(); }
    else { m_match = ++m_ptr == m_str.end(); }
  }\<close>
\<close>

definition parser_feed :: "char \<Rightarrow> parser \<Rightarrow> parser" where
  "parser_feed c p =
     (if c \<noteq> parser_deref p then parser_reset p
      else let p' = p\<lparr>m_ptr := m_ptr p + 1\<rparr>
           in p'\<lparr>m_match := (m_ptr p' = length (m_str p'))\<rparr>)"

text \<open>Feeding a byte sequence one byte at a time, without any reset by the caller.\<close>

definition parser_feeds :: "string \<Rightarrow> parser \<Rightarrow> parser" where
  "parser_feeds bs p = foldl (\<lambda>q c. parser_feed c q) p bs"

subsection \<open>Header extractor: \<^verbatim>\<open>class header\<close>\<close>

datatype state_type = s_begin | s_key | s_colon | s_value | s_carriage_return | s_matched

record header =
  m_key :: string
  m_value :: string
  m_state :: state_type
  m_error :: bool

text \<open>\<^verbatim>\<open>void reset(void) { m_key.clear(); m_value.clear(); m_state = s_begin; m_error = false; }\<close>\<close>

definition header_reset :: "header \<Rightarrow> header" where
  "header_reset h = h\<lparr>m_key := [], m_value := [], m_state := s_begin, m_error := False\<rparr>"

definition header_init :: header where
  "header_init = \<lparr>m_key = [], m_value = [], m_state = s_begin, m_error = False\<rparr>"

text \<open>\<^verbatim>\<open>operator bool(void) const { return m_state == s_matched; }\<close>\<close>

definition header_bool :: "header \<Rightarrow> bool" where
  "header_bool h = (m_state h = s_matched)"

text \<open>The statement \<^verbatim>\<open>if (c == '\n') reset();\<close> that ends \<^verbatim>\<open>header::feed\<close>.\<close>

definition header_newline :: "char \<Rightarrow> header \<Rightarrow> header" where
  "header_newline c h = (if c = LF then header_reset h else h)"

text \<open>
  \<^verbatim>\<open>header::feed\<close>: the \<^verbatim>\<open>switch\<close> with the fall-through from \<^verbatim>\<open>s_key\<close> into
  \<^verbatim>\<open>s_begin\<close>, the early \<^verbatim>\<open>return\<close> of the match in \<^verbatim>\<open>s_carriage_return\<close>, and the
  final newline test reached by every \<^verbatim>\<open>break\<close>.
\<close>

definition header_feed :: "char \<Rightarrow> header \<Rightarrow> header" where
  "header_feed c h0 =
     (let h = (if m_state h0 = s_matched then header_reset h0 else h0) in
      case m_state h of
        s_key \<Rightarrow>
          if c = CHR '':'' then header_newline c (h\<lparr>m_state := s_colon\<rparr>)
          else header_newline c (h\<lparr>m_key := m_key h @ [c], m_state := s_key\<rparr>)
      | s_begin \<Rightarrow> header_newline c (h\<lparr>m_key := m_key h @ [c], m_state := s_key\<rparr>)
      | s_colon \<Rightarrow>
          header_newline c (if c = CHR '' '' then h\<lparr>m_state := s_value\<rparr> else h\<lparr>m_error := True\<rparr>)
      | s_value \<Rightarrow>
          header_newline c
            (if c = CR then h\<lparr>m_state := s_carriage_return\<rparr> else h\<lparr>m_value := m_value h @ [c]\<rparr>)
      | s_carriage_return \<Rightarrow>
          if c = LF then
            (if \<not> m_error h then h\<lparr>m_state := s_matched\<rparr> else header_newline c (header_reset h))
          else header_newline c (h\<lparr>m_error := True\<rparr>)
      | s_matched \<Rightarrow> header_newline c h)"

definition header_feeds :: "string \<Rightarrow> header \<Rightarrow> header" where
  "header_feeds bs h = foldl (\<lambda>q c. header_feed c q) h bs"

subsection \<open>The C library: \<^verbatim>\<open>snprintf\<close> conversions, \<^verbatim>\<open>strlen\<close>, \<^verbatim>\<open>strtoul\<close>\<close>

text \<open>
  The server calls three functions of the C library. They are modelled after ISO C:
  the conversions \<^verbatim>\<open>%lu\<close> and \<^verbatim>\<open>%d\<close> print the shortest decimal numeral,
  \<^verbatim>\<open>strlen\<close> counts the bytes before the first NUL, and \<^verbatim>\<open>strtoul(s, NULL, 10)\<close>
  reads its argument up to the first NUL (the server passes \<^verbatim>\<open>value().data()\<close>),
  skips white space, reads an optional sign and the longest run of decimal digits,
  returns 0 when there is no digit, \<^verbatim>\<open>ULONG_MAX\<close> when the number does not fit, and
  negates the number in \<^verbatim>\<open>unsigned long\<close> after a minus sign.
\<close>

definition digit_char :: "nat \<Rightarrow> char" where
  "digit_char d = ''0123456789'' ! d"

fun dec :: "nat \<Rightarrow> string" where
  "dec n = (if n < 10 then [digit_char n] else dec (n div 10) @ [digit_char (n mod 10)])"

declare dec.simps [simp del]

text \<open>\<^verbatim>\<open>%lu\<close> of an \<^verbatim>\<open>unsigned long\<close> and \<^verbatim>\<open>%d\<close> of an \<^verbatim>\<open>int\<close>.\<close>

definition fmt_lu :: "64 word \<Rightarrow> string" where
  "fmt_lu w = dec (unat w)"

definition fmt_d :: "32 word \<Rightarrow> string" where
  "fmt_d i = (if sint i < 0 then CHR ''-'' # dec (nat (- sint i)) else dec (nat (sint i)))"

text \<open>
  \<^verbatim>\<open>snprintf(buf, n, ...)\<close> with the formatted text \<open>s\<close>: at most \<open>n - 1\<close> bytes are
  stored (followed by a NUL), and the length the whole text would have is returned.
\<close>

definition snprintf :: "nat \<Rightarrow> string \<Rightarrow> string \<times> nat" where
  "snprintf n s = (take (n - 1) s, length s)"

definition c_str :: "string \<Rightarrow> string" where
  "c_str s = takeWhile (\<lambda>c. c \<noteq> NUL) s"

definition strlen :: "string \<Rightarrow> nat" where
  "strlen s = length (c_str s)"

definition isspace :: "char \<Rightarrow> bool" where
  "isspace c = (c \<in> {CHR '' '', CHR 0x09, LF, CHR 0x0B, CHR 0x0C, CR})"

definition isdigit :: "char \<Rightarrow> bool" where
  "isdigit c = (c \<in> set ''0123456789'')"

definition digit_val :: "char \<Rightarrow> nat" where
  "digit_val c = of_char c - 48"

fun digits_val :: "nat \<Rightarrow> string \<Rightarrow> nat" where
  "digits_val acc [] = acc"
| "digits_val acc (c # cs) = digits_val (10 * acc + digit_val c) cs"

definition ULONG_MAX :: nat where
  "ULONG_MAX = 2 ^ 64 - 1"

text \<open>The bytes after an optional sign.\<close>

definition skip_sign :: "string \<Rightarrow> string" where
  "skip_sign s =
     (case s of [] \<Rightarrow> [] | c # cs \<Rightarrow> if c = CHR ''-'' \<or> c = CHR ''+'' then cs else c # cs)"

definition strtoul :: "string \<Rightarrow> 64 word" where
  "strtoul s =
     (let s1 = dropWhile isspace (c_str s);
          neg = (case s1 of [] \<Rightarrow> False | c # cs \<Rightarrow> c = CHR ''-'');
          ds = takeWhile isdigit (skip_sign s1)
      in if ds = [] then 0
         else let n = digits_val 0 ds
              in if ULONG_MAX < n then of_nat ULONG_MAX
                 else if neg then - of_nat n else of_nat n)"

subsection \<open>Pending reply: \<^verbatim>\<open>class Reply\<close>\<close>

text \<open>
  \<^verbatim>\<open>m_timer\<close> is a shared pointer to a deadline timer: the timer is idle, waits for
  a number of milliseconds, or the pointer has been reset. \<^verbatim>\<open>m_connection\<close>, the
  reference back to the connection, is not a field of the model: a reply is always held in
  the queue of its connection, and \<^verbatim>\<open>timed_out\<close> below takes that connection.
\<close>

datatype deadline_timer = timer_idle | timer_waiting "64 word" | timer_released

record Reply =
  m_timer :: deadline_timer
  m_str :: string
  m_sleep :: "64 word"

text \<open>The constructor copies \<open>l\<close> bytes from \<open>s\<close> and sets \<^verbatim>\<open>m_sleep(0)\<close>.\<close>

definition Reply_init :: "string \<Rightarrow> nat \<Rightarrow> Reply" where
  "Reply_init s l = \<lparr>m_timer = timer_idle, m_str = take l s, m_sleep = 0\<rparr>"

definition is_sleeping :: "Reply \<Rightarrow> bool" where
  "is_sleeping r = (m_sleep r \<noteq> 0)"

definition wakeup :: "Reply \<Rightarrow> Reply" where
  "wakeup r = (if is_sleeping r then r\<lparr>m_timer := timer_released, m_sleep := 0\<rparr> else r)"

definition set_sleeping :: "64 word \<Rightarrow> Reply \<Rightarrow> Reply" where
  "set_sleeping sleep r =
     (if 0 < sleep then r\<lparr>m_timer := timer_waiting sleep, m_sleep := sleep\<rparr> else wakeup r)"

subsection \<open>Connection: \<^verbatim>\<open>class tcp_connection\<close>\<close>

text \<open>
  The socket is modelled by what the connection does to it: whether it is open, the
  buffers handed to \<^verbatim>\<open>async_write\<close> in the order of the calls, and the number of
  \<^verbatim>\<open>async_read_some\<close> calls issued.
\<close>

record socket =
  is_open :: bool
  writes :: "string list"
  reads :: nat

definition async_write :: "string \<Rightarrow> socket \<Rightarrow> socket" where
  "async_write s sock = sock\<lparr>writes := writes sock @ [s]\<rparr>"

definition async_read_some :: "socket \<Rightarrow> socket" where
  "async_read_some sock = sock\<lparr>reads := reads sock + 1\<rparr>"

definition close :: "socket \<Rightarrow> socket" where
  "close sock = sock\<lparr>is_open := False\<rparr>"

text \<open>
  \<^verbatim>\<open>m_buffer\<close> is not a field: the bytes a read has put into it are the argument of
  \<^verbatim>\<open>handle_read\<close>.
\<close>

record tcp_connection =
  m_instance :: "32 word"
  m_reply :: "32 word"
  m_closed :: bool
  m_socket :: socket
  m_eom :: parser
  m_header :: header
  m_sleep :: "64 word"
  m_request :: "64 word"
  m_reply_queue :: "Reply list"

datatype error = assertion_failed | dangling_reply

datatype error_code = success | operation_aborted | other_error

text \<open>The constructor, reached through \<^verbatim>\<open>tcp_connection::create\<close>.\<close>

definition create :: "32 word \<Rightarrow> tcp_connection" where
  "create instance =
     \<lparr>m_instance = instance, m_reply = 0, m_closed = False,
      m_socket = \<lparr>is_open = False, writes = [], reads = 0\<rparr>,
      m_eom = parser_init CRLFCRLF, m_header = header_init,
      m_sleep = 0, m_request = 0, m_reply_queue = []\<rparr>"

definition start :: "tcp_connection \<Rightarrow> tcp_connection" where
  "start c = c\<lparr>m_socket := async_read_some (m_socket c)\<rparr>"

text \<open>
  The \<^verbatim>\<open>while\<close> loop of \<^verbatim>\<open>process_replies\<close>: stop at a sleeping front, otherwise
  write the front and pop it.
\<close>

function process_loop :: "tcp_connection \<Rightarrow> tcp_connection" where
  "process_loop c =
     (case m_reply_queue c of
        [] \<Rightarrow> c
      | r # q \<Rightarrow>
          if is_sleeping r then c
          else process_loop
                 (c\<lparr>m_socket := async_write (Reply.m_str r) (m_socket c), m_reply_queue := q\<rparr>))"
  by pat_completeness auto
termination
  by (relation "measure (\<lambda>c. length (m_reply_queue c))") auto

declare process_loop.simps [simp del]

definition process_replies :: "tcp_connection \<Rightarrow> tcp_connection" where
  "process_replies c =
     (if m_closed c then c
      else if m_reply_queue c = [] then c
      else process_loop c)"

text \<open>The format \<^verbatim>\<open>"Reply %d on connection %d for request #%lu"\<close> of the body text.\<close>

definition body_fmt :: "32 word \<Rightarrow> 32 word \<Rightarrow> 64 word \<Rightarrow> string" where
  "body_fmt rep inst req =
     ''Reply '' @ fmt_d rep @ '' on connection '' @ fmt_d inst @ '' for request #'' @ fmt_lu req"

text \<open>The format \<^verbatim>\<open>reply\<close> with its five arguments.\<close>

definition reply :: "64 word \<Rightarrow> 32 word \<Rightarrow> 64 word \<Rightarrow> 32 word \<Rightarrow> string \<Rightarrow> string" where
  "reply len inst req rep body =
     ''HTTP/1.1 200 OK'' @ CRLF @
     ''Keep-Alive: timeout=10 max=400'' @ CRLF @
     ''Content-Length: '' @ fmt_lu len @ CRLF @
     ''Content-Type: text/html'' @ CRLF @
     ''X-Connection: '' @ fmt_d inst @ CRLF @
     ''X-Request: '' @ fmt_lu req @ CRLF @
     ''X-Reply: '' @ fmt_d rep @ CRLF @
     CRLF @
     ''<html><body>'' @ c_str body @ ''</body></html>'' @ [LF]"

text \<open>
  \<^verbatim>\<open>queue_reply\<close>. Each \<^verbatim>\<open>assert\<close> is a branch that fails. \<^verbatim>\<open>rp->set_sleeping\<close>
  acts on the element just pushed, the last of the queue. \<^verbatim>\<open>++m_reply\<close> is the addition
  of the 32-bit word, which wraps where the \<^verbatim>\<open>int\<close> of the source would overflow.
\<close>

definition queue_reply :: "tcp_connection \<Rightarrow> error + tcp_connection" where
  "queue_reply c =
     (let c1 = c\<lparr>m_reply := m_reply c + 1\<rparr>;
          (body, size) = snprintf 256 (body_fmt (m_reply c1) (m_instance c1) (m_request c1))
      in if \<not> size < 256 then Inl assertion_failed
         else
           let (buf, size) =
                 snprintf 512
                   (reply (of_nat (strlen body) + 27) (m_instance c1) (m_request c1) (m_reply c1) body)
           in if \<not> size < 512 then Inl assertion_failed
              else
                let c2 = c1\<lparr>m_request := 0\<rparr>;
                    c3 = c2\<lparr>m_reply_queue := m_reply_queue c2 @ [Reply_init buf size]\<rparr>;
                    c4 = (if m_sleep c3 \<noteq> 0
                          then c3\<lparr>m_reply_queue :=
                                    butlast (m_reply_queue c3) @
                                    [set_sleeping (m_sleep c3) (last (m_reply_queue c3))]\<rparr>
                          else c3)
                in Inr (process_replies c4))"

text \<open>The body of the \<^verbatim>\<open>for\<close> loop of \<^verbatim>\<open>handle_read\<close>, for the byte \<open>p\<close>.\<close>

definition read_byte :: "char \<Rightarrow> tcp_connection \<Rightarrow> error + tcp_connection" where
  "read_byte p c =
     (let c1 = c\<lparr>m_eom := parser_feed p (m_eom c)\<rparr>;
          c2 = c1\<lparr>m_header := header_feed p (m_header c1)\<rparr>
      in if m_match (m_eom c2) then
           (case queue_reply
                   (c2\<lparr>m_eom := parser_reset (m_eom c2), m_header := header_reset (m_header c2)\<rparr>) of
              Inl e \<Rightarrow> Inl e
            | Inr c3 \<Rightarrow> Inr (c3\<lparr>m_sleep := 0\<rparr>))
         else if header_bool (m_header c2) then
           (if m_key (m_header c2) = ''X-Sleep''
            then Inr (c2\<lparr>m_sleep := strtoul (m_value (m_header c2))\<rparr>)
            else if m_key (m_header c2) = ''X-Request''
            then Inr (c2\<lparr>m_request := strtoul (m_value (m_header c2))\<rparr>)
            else Inr c2)
         else Inr c2)"

fun read_loop :: "string \<Rightarrow> tcp_connection \<Rightarrow> error + tcp_connection" where
  "read_loop [] c = Inr c"
| "read_loop (p # ps) c =
     (case read_byte p c of Inl e \<Rightarrow> Inl e | Inr c' \<Rightarrow> read_loop ps c')"

text \<open>
  \<^verbatim>\<open>handle_read\<close> with the error code of the completed read and the bytes
  transferred into the buffer.
\<close>

definition handle_read :: "error_code \<Rightarrow> string \<Rightarrow> tcp_connection \<Rightarrow> error + tcp_connection" where
  "handle_read e buf c =
     (if e = success then
        (case read_loop buf c of
           Inl x \<Rightarrow> Inl x
         | Inr c' \<Rightarrow> Inr (c'\<lparr>m_socket := async_read_some (m_socket c')\<rparr>))
      else if e \<noteq> operation_aborted then
        Inr (c\<lparr>m_reply_queue := [], m_socket := close (m_socket c), m_closed := True\<rparr>)
      else Inr c)"

text \<open>
  \<^verbatim>\<open>Reply::timed_out\<close>, for the reply at position \<open>i\<close> of the queue of its connection.
  Without an error it clears \<^verbatim>\<open>m_sleep\<close> of that reply and calls
  \<^verbatim>\<open>process_replies\<close>; with no reply at that position the callback would act on
  a destroyed object, which is the failure \<open>dangling_reply\<close>.
\<close>

definition timed_out :: "error_code \<Rightarrow> nat \<Rightarrow> tcp_connection \<Rightarrow> error + tcp_connection" where
  "timed_out e i c =
     (if e = success then
        (if i < length (m_reply_queue c)
         then Inr (process_replies
                     (c\<lparr>m_reply_queue := (m_reply_queue c)[i := (m_reply_queue c ! i)\<lparr>Reply.m_sleep := 0\<rparr>]\<rparr>))
         else Inl dangling_reply)
      else Inr c)"

subsection \<open>Events of one connection\<close>

text \<open>
  The event loop calls the handlers of a connection one at a time: a read completes
  (\<^verbatim>\<open>handle_read\<close>) or the timer of a queued reply completes (\<^verbatim>\<open>timed_out\<close>).
\<close>

datatype event = Read error_code string | Timer error_code nat

fun step :: "event \<Rightarrow> tcp_connection \<Rightarrow> error + tcp_connection" where
  "step (Read e buf) c = handle_read e buf c"
| "step (Timer e i) c = timed_out e i c"

fun run :: "event list \<Rightarrow> tcp_connection \<Rightarrow> error + tcp_connection" where
  "run [] c = Inr c"
| "run (ev # evs) c = (case step ev c of Inl x \<Rightarrow> Inl x | Inr c' \<Rightarrow> run evs c')"

text \<open>
  What an observer of the connection sees: the buffers handed to the socket so far, in
  the order of the \<^verbatim>\<open>async_write\<close> calls, and the texts of the replies still queued.
\<close>

definition wire :: "tcp_connection \<Rightarrow> string list" where
  "wire c = writes (m_socket c)"

definition pending :: "tcp_connection \<Rightarrow> string list" where
  "pending c = map Reply.m_str (m_reply_queue c)"

subsection \<open>Listener: \<^verbatim>\<open>class tcp_server\<close> and \<^verbatim>\<open>main\<close>\<close>

record acceptor =
  port :: "16 word"
  reuse_address :: bool

record tcp_server =
  m_acceptor :: acceptor
  m_count :: "32 word"

text \<open>
  \<^verbatim>\<open>start_accept\<close> creates the next connection with \<^verbatim>\<open>++m_count\<close> and waits for a
  client; the connection is returned beside the server.
\<close>

definition start_accept :: "tcp_server \<Rightarrow> tcp_server \<times> tcp_connection" where
  "start_accept srv =
     (let srv' = srv\<lparr>m_count := m_count srv + 1\<rparr> in (srv', create (m_count srv')))"

text \<open>The constructor: the acceptor is bound to port 9001 of every IPv4 address.\<close>

definition tcp_server_init :: "tcp_server \<times> tcp_connection" where
  "tcp_server_init =
     start_accept \<lparr>m_acceptor = \<lparr>port = 9001, reuse_address = True\<rparr>, m_count = 0\<rparr>"

text \<open>
  \<^verbatim>\<open>handle_accept\<close>: an accepted connection is started (its socket is open then), and
  the server waits for the next client in every case.
\<close>

definition handle_accept ::
  "tcp_connection \<Rightarrow> error_code \<Rightarrow> tcp_server \<Rightarrow> tcp_connection option \<times> tcp_server \<times> tcp_connection" where
  "handle_accept new_connection e srv =
     ((if e = success
       then Some (start (new_connection\<lparr>m_socket := (m_socket new_connection)\<lparr>is_open := True\<rparr>\<rparr>))
       else None),
      start_accept srv)"

text \<open>
  \<^verbatim>\<open>int main()\<close> declares no parameters: it builds the server and enters the event
  loop. \<open>main\<close> is the state in which the loop is entered, and \<open>exec argv\<close> is the
  program launched with the argument vector \<open>argv\<close>, which \<^verbatim>\<open>main\<close> cannot read.
\<close>

definition main :: "tcp_server \<times> tcp_connection" where
  "main = tcp_server_init"

definition exec :: "string list \<Rightarrow> tcp_server \<times> tcp_connection" where
  "exec argv = main"

subsection \<open>Derived notions used by the theorems\<close>

text \<open>
  The replies of a connection in the order of their creation, as far as the state
  still holds them: those handed to the socket, followed by those in the queue.
\<close>

definition history :: "tcp_connection \<Rightarrow> string list" where
  "history c = wire c @ pending c"

text \<open>
  What \<^verbatim>\<open>queue_reply\<close> builds in the state \<open>c\<close>: the body text, the formatted
  reply, and the element pushed on the queue (sleeping when \<^verbatim>\<open>m_sleep\<close> is not 0).
\<close>

definition body_of :: "tcp_connection \<Rightarrow> string" where
  "body_of c = body_fmt (m_reply c + 1) (m_instance c) (m_request c)"

definition reply_of :: "tcp_connection \<Rightarrow> string" where
  "reply_of c =
     reply (of_nat (length (body_of c)) + 27) (m_instance c) (m_request c) (m_reply c + 1) (body_of c)"

definition pushed :: "tcp_connection \<Rightarrow> Reply" where
  "pushed c =
     (if m_sleep c \<noteq> 0
      then \<lparr>m_timer = timer_waiting (m_sleep c), m_str = reply_of c, m_sleep = m_sleep c\<rparr>
      else \<lparr>m_timer = timer_idle, m_str = reply_of c, m_sleep = 0\<rparr>)"

text \<open>A reply that the flush may write: one that is not sleeping.\<close>

definition ready :: "Reply \<Rightarrow> bool" where
  "ready r = (\<not> is_sleeping r)"

text \<open>
  The matcher of a connection between two bytes: it holds \<^verbatim>\<open>"\r\n\r\n"\<close>, reports no
  match, and its cursor is inside the string.
\<close>

definition eom_ok :: "tcp_connection \<Rightarrow> bool" where
  "eom_ok c =
     (parser.m_str (m_eom c) = CRLFCRLF \<and> \<not> m_match (m_eom c) \<and> m_ptr (m_eom c) < 4)"

text \<open>A read that completed with an error other than the cancellation.\<close>

fun read_failed :: "event \<Rightarrow> bool" where
  "read_failed (Read e buf) = (e \<noteq> success \<and> e \<noteq> operation_aborted)"
| "read_failed (Timer e i) = False"

text \<open>The bytes that the reads of an event sequence deliver, in order.\<close>

fun input_of :: "event list \<Rightarrow> string" where
  "input_of [] = []"
| "input_of (Read e buf # evs) = (if e = success then buf @ input_of evs else input_of evs)"
| "input_of (Timer e i # evs) = input_of evs"

text \<open>A read that completed without an error and delivered its bytes.\<close>

fun read_ok :: "event \<Rightarrow> bool" where
  "read_ok (Read e buf) = (e = success)"
| "read_ok (Timer e i) = False"

text \<open>
  The text of the reply with sequence number \<open>k\<close> of connection \<open>inst\<close> that echoes
  the request identifier \<open>req\<close>: the two \<^verbatim>\<open>snprintf\<close> calls of \<^verbatim>\<open>queue_reply\<close> with
  the counter at \<open>k\<close>.
\<close>

definition reply_text :: "32 word \<Rightarrow> 64 word \<Rightarrow> nat \<Rightarrow> string" where
  "reply_text inst req k =
     reply (of_nat (length (body_fmt (of_nat k) inst req)) + 27) inst req (of_nat k)
       (body_fmt (of_nat k) inst req)"

text \<open>
  Every reply the state still holds carries its position in the order of creation,
  and the counter \<^verbatim>\<open>m_reply\<close> is their number.
\<close>

definition numbered :: "tcp_connection \<Rightarrow> bool" where
  "numbered c =
     (m_reply c = of_nat (length (history c)) \<and>
      (\<forall>k < length (history c). \<exists>req. history c ! k = reply_text (m_instance c) req (Suc k)))"

subsection \<open>Requests as the server reads them\<close>

text \<open>
  What the matcher and the extractor report after each byte of a sequence fed to them
  (the extractor resets itself after a match, the matcher is reset by the connection).
\<close>

fun header_reports :: "string \<Rightarrow> header \<Rightarrow> bool list" where
  "header_reports [] h = []"
| "header_reports (c # cs) h = header_bool (header_feed c h) # header_reports cs (header_feed c h)"

fun parser_reports :: "string \<Rightarrow> parser \<Rightarrow> bool list" where
  "parser_reports [] p = []"
| "parser_reports (c # cs) p = m_match (parser_feed c p) # parser_reports cs (parser_feed c p)"

text \<open>The matcher of a connection with its cursor at offset \<open>n\<close> and no match.\<close>

definition eom_at :: "nat \<Rightarrow> parser" where
  "eom_at n = \<lparr>parser.m_str = CRLFCRLF, m_match = False, m_ptr = n\<rparr>"

text \<open>
  The lines of a request head as the extractor sees them: a field
  \<^verbatim>\<open>KEY: VALUE\<close>, or any other line (the request line, a line without a colon, a
  line whose colon is not followed by a space). Every line ends in \<^verbatim>\<open>"\r\n"\<close>, and
  the request ends in an empty line.
\<close>

datatype line = Field string string | Other string

fun line_bytes :: "line \<Rightarrow> string" where
  "line_bytes (Field k v) = k @ '': '' @ v @ CRLF"
| "line_bytes (Other s) = s @ CRLF"

definition request :: "line list \<Rightarrow> string" where
  "request ls = concat (map line_bytes ls) @ CRLF"

text \<open>
  A line that is no field: it has no colon, or its first colon is not its first byte and
  is not followed by a space.
\<close>

definition no_field :: "string \<Rightarrow> bool" where
  "no_field s =
     (case dropWhile (\<lambda>x. x \<noteq> CHR '':'') s of
        [] \<Rightarrow> True
      | x # t \<Rightarrow> hd s \<noteq> CHR '':'' \<and> (case t of [] \<Rightarrow> True | y # u \<Rightarrow> y \<noteq> CHR '' ''))"

fun wf_line :: "line \<Rightarrow> bool" where
  "wf_line (Field k v) =
     (k \<noteq> [] \<and> CHR '':'' \<notin> set k \<and> CR \<notin> set k \<and> LF \<notin> set k \<and> CR \<notin> set v \<and> LF \<notin> set v)"
| "wf_line (Other s) = (s \<noteq> [] \<and> CR \<notin> set s \<and> LF \<notin> set s \<and> no_field s)"

definition wf_request :: "line list \<Rightarrow> bool" where
  "wf_request ls = (ls \<noteq> [] \<and> list_all wf_line ls)"

text \<open>
  The values of the fields with the key \<open>key\<close> among the lines, in order, and the
  number that the last of them denotes for \<^verbatim>\<open>strtoul\<close>: \<open>x\<close> when there is none,
  where \<open>x\<close> is the value held before the lines (0 at the start of a request).
\<close>

fun field_values :: "string \<Rightarrow> line list \<Rightarrow> string list" where
  "field_values key [] = []"
| "field_values key (Field k v # ls) =
     (if k = key then v # field_values key ls else field_values key ls)"
| "field_values key (Other s # ls) = field_values key ls"

definition value_after :: "string \<Rightarrow> 64 word \<Rightarrow> line list \<Rightarrow> 64 word" where
  "value_after key x ls =
     (if field_values key ls = [] then x else strtoul (last (field_values key ls)))"

definition last_value :: "string \<Rightarrow> line list \<Rightarrow> 64 word" where
  "last_value key ls = value_after key 0 ls"

text \<open>
  The connection between two requests: the matcher at the start of its string, the
  extractor at the start of a line (just reset, or holding the field it has just reported),
  and both values at 0.
\<close>

definition line_start :: "header \<Rightarrow> bool" where
  "line_start h = (h = header_init \<or> m_state h = s_matched)"

definition request_start :: "tcp_connection \<Rightarrow> bool" where
  "request_start c =
     (m_eom c = eom_at 0 \<and> line_start (m_header c) \<and> m_sleep c = 0 \<and> m_request c = 0)"

text \<open>
  Two states of a connection that agree on everything the reading of bytes depends on
  and on the replies created so far.
\<close>

definition same_parse :: "tcp_connection \<Rightarrow> tcp_connection \<Rightarrow> bool" where
  "same_parse c d =
     (m_eom c = m_eom d \<and> m_header c = m_header d \<and> m_sleep c = m_sleep d \<and>
      m_request c = m_request d \<and> m_reply c = m_reply d \<and> m_instance c = m_instance d \<and>
      history c = history d)"

text \<open>
  The subject sequence of \<^verbatim>\<open>strtoul\<close>: what follows the white space and the optional
  sign. A value has no number when its subject sequence does not start with a digit.
\<close>

definition subject :: "string \<Rightarrow> string" where
  "subject s = skip_sign (dropWhile isspace (c_str s))"

definition no_number :: "string \<Rightarrow> bool" where
  "no_number s = (case subject s of [] \<Rightarrow> True | c # cs \<Rightarrow> \<not> isdigit c)"

text \<open>
  A value that denotes a non-negative integer, read generously: optional white space, an
  optional plus sign, then decimal digits up to the end.
\<close>

definition nonneg_integer :: "string \<Rightarrow> bool" where
  "nonneg_integer s =
     (case dropWhile isspace s of
        [] \<Rightarrow> False
      | c # cs \<Rightarrow> (if c = CHR ''+'' then cs \<noteq> [] \<and> list_all isdigit cs else list_all isdigit (c # cs)))"

section \<open>Lemmas about the model\<close>

lemma dec_digits: "set (dec n) \<subseteq> set ''0123456789''"
proof (induction n rule: dec.induct)
  case (1 n)
  have d: "digit_char k \<in> set ''0123456789''" if "k < 10" for k
  proof -
    from that have "k \<in> {0,1,2,3,4,5,6,7,8,9}" by auto
    then show ?thesis by (auto simp: digit_char_def)
  qed
  show ?case
  proof (cases "n < 10")
    case True
    then show ?thesis using d[of n] by (subst dec.simps) simp
  next
    case False
    have "n mod 10 < 10" by simp
    from d[OF this] 1[OF False] False show ?thesis
      by (subst dec.simps) simp
  qed
qed

lemma dec_length: "0 < k \<Longrightarrow> n < 10 ^ k \<Longrightarrow> length (dec n) \<le> k"
proof (induction n arbitrary: k rule: dec.induct)
  case (1 n)
  show ?case
  proof (cases "n < 10")
    case True
    then show ?thesis using 1(2) by (subst dec.simps) simp
  next
    case False
    with 1(3) have k: "1 < k" by (cases "k = 1") (use 1(2) in auto)
    then obtain j where j: "k = Suc j" "0 < j" by (cases k) auto
    from 1(3) j have "n div 10 < 10 ^ j"
      by (simp add: less_mult_imp_div_less mult.commute)
    from 1(1)[OF False j(2) this] j False show ?thesis
      by (subst dec.simps) simp
  qed
qed

lemma fmt_lu_length: "length (fmt_lu w) \<le> 20"
proof -
  have "unat w < 2 ^ 64" using unsigned_less[of w, where 'a=nat] by simp
  also have "(2::nat) ^ 64 < 10 ^ 20" by simp
  finally show ?thesis unfolding fmt_lu_def by (intro dec_length) simp_all
qed

lemma fmt_d_length: "length (fmt_d i) \<le> 11"
proof -
  have lo: "- (2 ^ 31) \<le> sint i" using sint_ge[of i] by simp
  have hi: "sint i < 2 ^ 31" using sint_lt[of i] by simp
  have p: "(2::nat) ^ 31 < 10 ^ 10" by simp
  show ?thesis
  proof (cases "sint i < 0")
    case True
    with lo have "nat (- sint i) \<le> 2 ^ 31" by simp
    with p have "nat (- sint i) < 10 ^ 10" by linarith
    then have "length (dec (nat (- sint i))) \<le> 10" by (intro dec_length) simp_all
    with True show ?thesis by (simp add: fmt_d_def)
  next
    case False
    with hi have "nat (sint i) < 2 ^ 31" by simp
    with p have "nat (sint i) < 10 ^ 10" by linarith
    then have "length (dec (nat (sint i))) \<le> 10" by (intro dec_length) simp_all
    with False show ?thesis by (simp add: fmt_d_def)
  qed
qed

lemma fmt_lu_no_NUL: "NUL \<notin> set (fmt_lu w)"
  using dec_digits[of "unat w"] by (auto simp: fmt_lu_def)

lemma fmt_d_no_NUL: "NUL \<notin> set (fmt_d i)"
  using dec_digits[of "nat (- sint i)"] dec_digits[of "nat (sint i)"] by (auto simp: fmt_d_def)

lemma c_str_id: "NUL \<notin> set s \<Longrightarrow> c_str s = s"
  by (auto simp: c_str_def takeWhile_eq_all_conv)

lemma body_fmt_no_NUL: "NUL \<notin> set (body_fmt rep inst req)"
  using fmt_lu_no_NUL[of req] fmt_d_no_NUL[of rep] fmt_d_no_NUL[of inst]
  by (simp add: body_fmt_def)

lemma body_fmt_length: "length (body_fmt rep inst req) \<le> 77"
  using fmt_lu_length[of req] fmt_d_length[of rep] fmt_d_length[of inst]
  by (simp add: body_fmt_def)

lemma c_str_body_fmt: "c_str (body_fmt rep inst req) = body_fmt rep inst req"
  by (rule c_str_id) (rule body_fmt_no_NUL)

lemma reply_length:
  "length (reply len inst req rep (body_fmt rep' inst' req')) \<le> 300"
  using fmt_lu_length[of req] fmt_lu_length[of len] fmt_d_length[of rep] fmt_d_length[of inst]
    body_fmt_length[of rep' inst' req']
  by (simp add: reply_def c_str_body_fmt)

lemma queue_reply_eq:
  "queue_reply c =
     Inr (process_replies
            (c\<lparr>m_reply := m_reply c + 1, m_request := 0,
               m_reply_queue := m_reply_queue c @ [pushed c]\<rparr>))"
proof -
  have b: "length (body_of c) < 256" "take 255 (body_of c) = body_of c"
    using body_fmt_length[of "m_reply c + 1" "m_instance c" "m_request c"]
    by (simp_all add: body_of_def)
  have s: "strlen (body_of c) = length (body_of c)"
    by (simp add: strlen_def body_of_def c_str_body_fmt)
  have r: "length (reply_of c) < 512" "take 511 (reply_of c) = reply_of c"
    using reply_length[of "of_nat (length (body_of c)) + 27" "m_instance c" "m_request c" "m_reply c + 1"
        "m_reply c + 1" "m_instance c" "m_request c"]
    by (simp_all add: reply_of_def body_of_def)
  have z: "0 < m_sleep c" if "m_sleep c \<noteq> 0"
    using that by (simp add: word_greater_zero_iff)
  show ?thesis
    using b s r z
    by (simp add: queue_reply_def Let_def snprintf_def body_of_def[symmetric] reply_of_def[symmetric]
        pushed_def Reply_init_def set_sleeping_def)
qed

lemma process_loop_eq:
  "process_loop c =
     c\<lparr>m_socket := (m_socket c)\<lparr>writes := writes (m_socket c) @
            map Reply.m_str (takeWhile ready (m_reply_queue c))\<rparr>,
       m_reply_queue := dropWhile ready (m_reply_queue c)\<rparr>"
proof (induction c rule: process_loop.induct)
  case (1 c)
  show ?case
  proof (cases "m_reply_queue c")
    case Nil
    then show ?thesis by (subst process_loop.simps) simp
  next
    case (Cons r q)
    show ?thesis
    proof (cases "is_sleeping r")
      case True
      then have "\<not> ready r" by (simp add: ready_def)
      with Cons True show ?thesis by (subst process_loop.simps) simp
    next
      case False
      then have "ready r" by (simp add: ready_def)
      with 1[OF Cons False] Cons False show ?thesis
        by (subst process_loop.simps) (simp add: async_write_def)
    qed
  qed
qed

lemma process_replies_eq:
  "process_replies c =
     (if m_closed c then c
      else c\<lparr>m_socket := (m_socket c)\<lparr>writes := writes (m_socket c) @
                 map Reply.m_str (takeWhile ready (m_reply_queue c))\<rparr>,
             m_reply_queue := dropWhile ready (m_reply_queue c)\<rparr>)"
  by (simp add: process_replies_def process_loop_eq)

lemma history_process_replies: "history (process_replies c) = history c"
proof -
  have "map Reply.m_str (takeWhile ready q) @ map Reply.m_str (dropWhile ready q) = map Reply.m_str q" for q
    by (simp flip: map_append)
  then show ?thesis
    by (simp add: process_replies_eq history_def wire_def pending_def)
qed

lemma wire_process_replies: "prefix (wire c) (wire (process_replies c))"
  by (simp add: process_replies_eq wire_def)

lemma closed_process_replies: "m_closed (process_replies c) = m_closed c"
  by (simp add: process_replies_eq)

lemma queue_reply_history: "queue_reply c = Inr c' \<Longrightarrow> history c' = history c @ [reply_of c]"
  by (auto simp: queue_reply_eq history_process_replies)
     (simp add: history_def wire_def pending_def pushed_def)

lemma queue_reply_wire: "queue_reply c = Inr c' \<Longrightarrow> prefix (wire c) (wire c')"
proof -
  assume "queue_reply c = Inr c'"
  then have "c' = process_replies (c\<lparr>m_reply := m_reply c + 1, m_request := 0,
               m_reply_queue := m_reply_queue c @ [pushed c]\<rparr>)" (is "_ = process_replies ?d")
    by (simp add: queue_reply_eq)
  moreover have "wire ?d = wire c" by (simp add: wire_def)
  ultimately show ?thesis using wire_process_replies[of ?d] by simp
qed

lemma queue_reply_fields:
  assumes "queue_reply c = Inr c'"
  shows "m_closed c' = m_closed c" "m_reply c' = m_reply c + 1" "m_request c' = 0"
    "m_instance c' = m_instance c" "m_eom c' = m_eom c" "m_header c' = m_header c"
    "m_sleep c' = m_sleep c" "reads (m_socket c') = reads (m_socket c)"
    "is_open (m_socket c') = is_open (m_socket c)"
proof -
  from assms have c': "c' = process_replies (c\<lparr>m_reply := m_reply c + 1, m_request := 0,
               m_reply_queue := m_reply_queue c @ [pushed c]\<rparr>)"
    by (simp add: queue_reply_eq)
  show "m_closed c' = m_closed c" "m_reply c' = m_reply c + 1" "m_request c' = 0"
    "m_instance c' = m_instance c" "m_eom c' = m_eom c" "m_header c' = m_header c"
    "m_sleep c' = m_sleep c" "reads (m_socket c') = reads (m_socket c)"
    "is_open (m_socket c') = is_open (m_socket c)"
    unfolding c' by (cases "m_closed c"; simp add: process_replies_eq)+
qed

lemma queue_reply_closed_wire: "queue_reply c = Inr c' \<Longrightarrow> m_closed c \<Longrightarrow> wire c' = wire c"
  by (cases "m_closed c") (auto simp: queue_reply_eq process_replies_eq wire_def)

lemma queue_reply_total: "\<exists>c'. queue_reply c = Inr c'"
  by (simp add: queue_reply_eq)

lemma read_byte_cases:
  assumes "read_byte p c = Inr c'"
  obtains
    (boundary) d where "m_match (parser_feed p (m_eom c))"
      "queue_reply (c\<lparr>m_eom := parser_reset (parser_feed p (m_eom c)),
                       m_header := header_reset (header_feed p (m_header c))\<rparr>) = Inr d"
      "c' = d\<lparr>m_sleep := 0\<rparr>"
  | (sleep) "\<not> m_match (parser_feed p (m_eom c))" "header_bool (header_feed p (m_header c))"
      "m_key (header_feed p (m_header c)) = ''X-Sleep''"
      "c' = c\<lparr>m_eom := parser_feed p (m_eom c), m_header := header_feed p (m_header c),
              m_sleep := strtoul (m_value (header_feed p (m_header c)))\<rparr>"
  | (request) "\<not> m_match (parser_feed p (m_eom c))" "header_bool (header_feed p (m_header c))"
      "m_key (header_feed p (m_header c)) \<noteq> ''X-Sleep''"
      "m_key (header_feed p (m_header c)) = ''X-Request''"
      "c' = c\<lparr>m_eom := parser_feed p (m_eom c), m_header := header_feed p (m_header c),
              m_request := strtoul (m_value (header_feed p (m_header c)))\<rparr>"
  | (other) "\<not> m_match (parser_feed p (m_eom c))"
      "\<not> (header_bool (header_feed p (m_header c)) \<and>
          (m_key (header_feed p (m_header c)) = ''X-Sleep'' \<or>
           m_key (header_feed p (m_header c)) = ''X-Request''))"
      "c' = c\<lparr>m_eom := parser_feed p (m_eom c), m_header := header_feed p (m_header c)\<rparr>"
  using assms
  by (auto simp: read_byte_def Let_def split: if_splits sum.splits)

lemma read_byte_total: "\<exists>c'. read_byte p c = Inr c'"
  using queue_reply_total
  by (auto simp: read_byte_def Let_def split: sum.splits) (metis Inl_Inr_False)+

lemmas dec_eval = dec.simps[of 0] dec.simps[of 1] dec.simps[of "numeral k"] for k

lemma doc_length: "length (''<html><body>'' @ b @ ''</body></html>'' @ [LF]) = length b + 27"
  by simp

lemma reply_of_unfold:
  "reply_of c =
     ''HTTP/1.1 200 OK'' @ CRLF @
     ''Keep-Alive: timeout=10 max=400'' @ CRLF @
     ''Content-Length: '' @
       dec (length (''<html><body>'' @ body_of c @ ''</body></html>'' @ [LF])) @ CRLF @
     ''Content-Type: text/html'' @ CRLF @
     ''X-Connection: '' @ fmt_d (m_instance c) @ CRLF @
     ''X-Request: '' @ fmt_lu (m_request c) @ CRLF @
     ''X-Reply: '' @ fmt_d (m_reply c + 1) @ CRLF @
     CRLF @
     ''<html><body>'' @ body_of c @ ''</body></html>'' @ [LF]"
proof -
  have l: "length (body_of c) \<le> 77"
    by (simp add: body_of_def body_fmt_length)
  have "unat (of_nat (length (body_of c)) + 27 :: 64 word) = (length (body_of c) + 27) mod 2 ^ 64"
    using unat_of_nat[of "length (body_of c) + 27", where 'a=64] by simp
  also have "\<dots> = length (body_of c) + 27"
    using l by simp
  finally have "unat (of_nat (length (body_of c)) + 27 :: 64 word) = length (body_of c) + 27" .
  then show ?thesis
    by (subst doc_length) (simp add: reply_of_def reply_def fmt_lu_def body_of_def c_str_body_fmt)
qed

lemma history_upd [simp]:
  "history (c\<lparr>m_eom := e\<rparr>) = history c" "history (c\<lparr>m_header := h\<rparr>) = history c"
  "history (c\<lparr>m_sleep := s\<rparr>) = history c" "history (c\<lparr>m_request := r\<rparr>) = history c"
  "history (c\<lparr>m_reply := n\<rparr>) = history c" "history (c\<lparr>m_closed := b\<rparr>) = history c"
  by (simp_all add: history_def wire_def pending_def)

lemma wire_upd [simp]:
  "wire (c\<lparr>m_eom := e\<rparr>) = wire c" "wire (c\<lparr>m_header := h\<rparr>) = wire c"
  "wire (c\<lparr>m_sleep := s\<rparr>) = wire c" "wire (c\<lparr>m_request := r\<rparr>) = wire c"
  "wire (c\<lparr>m_reply := n\<rparr>) = wire c" "wire (c\<lparr>m_closed := b\<rparr>) = wire c"
  "wire (c\<lparr>m_reply_queue := q\<rparr>) = wire c"
  by (simp_all add: wire_def)

lemma read_byte_closed: "read_byte p c = Inr c' \<Longrightarrow> m_closed c' = m_closed c"
  by (erule read_byte_cases) (auto dest: queue_reply_fields(1))

lemma read_byte_instance: "read_byte p c = Inr c' \<Longrightarrow> m_instance c' = m_instance c"
  by (erule read_byte_cases) (auto dest: queue_reply_fields(4))

lemma read_byte_wire: "read_byte p c = Inr c' \<Longrightarrow> prefix (wire c) (wire c')"
  by (erule read_byte_cases) (auto dest: queue_reply_wire)

lemma read_byte_closed_wire: "read_byte p c = Inr c' \<Longrightarrow> m_closed c \<Longrightarrow> wire c' = wire c"
  by (erule read_byte_cases) (auto dest: queue_reply_closed_wire)

lemma read_byte_history: "read_byte p c = Inr c' \<Longrightarrow> prefix (history c) (history c')"
  by (erule read_byte_cases) (auto dest: queue_reply_history)

lemma read_loop_Cons:
  "read_loop (p # ps) c = Inr c' \<Longrightarrow> \<exists>d. read_byte p c = Inr d \<and> read_loop ps d = Inr c'"
  by (cases "read_byte p c") auto

lemma read_loop_closed: "read_loop ps c = Inr c' \<Longrightarrow> m_closed c' = m_closed c"
proof (induction ps arbitrary: c)
  case Nil
  then show ?case by simp
next
  case (Cons p ps)
  from read_loop_Cons[OF Cons.prems] obtain d where d: "read_byte p c = Inr d" "read_loop ps d = Inr c'"
    by blast
  from read_byte_closed[OF d(1)] Cons.IH[OF d(2)] show ?case by simp
qed

lemma read_loop_instance: "read_loop ps c = Inr c' \<Longrightarrow> m_instance c' = m_instance c"
proof (induction ps arbitrary: c)
  case Nil
  then show ?case by simp
next
  case (Cons p ps)
  from read_loop_Cons[OF Cons.prems] obtain d where d: "read_byte p c = Inr d" "read_loop ps d = Inr c'"
    by blast
  from read_byte_instance[OF d(1)] Cons.IH[OF d(2)] show ?case by simp
qed

lemma read_loop_wire: "read_loop ps c = Inr c' \<Longrightarrow> prefix (wire c) (wire c')"
proof (induction ps arbitrary: c)
  case Nil
  then show ?case by simp
next
  case (Cons p ps)
  from read_loop_Cons[OF Cons.prems] obtain d where d: "read_byte p c = Inr d" "read_loop ps d = Inr c'"
    by blast
  from read_byte_wire[OF d(1)] Cons.IH[OF d(2)] show ?case
    by (rule prefix_order.trans)
qed

lemma read_loop_history: "read_loop ps c = Inr c' \<Longrightarrow> prefix (history c) (history c')"
proof (induction ps arbitrary: c)
  case Nil
  then show ?case by simp
next
  case (Cons p ps)
  from read_loop_Cons[OF Cons.prems] obtain d where d: "read_byte p c = Inr d" "read_loop ps d = Inr c'"
    by blast
  from read_byte_history[OF d(1)] Cons.IH[OF d(2)] show ?case
    by (rule prefix_order.trans)
qed

lemma read_loop_closed_wire: "read_loop ps c = Inr c' \<Longrightarrow> m_closed c \<Longrightarrow> wire c' = wire c"
proof (induction ps arbitrary: c)
  case Nil
  then show ?case by simp
next
  case (Cons p ps)
  from read_loop_Cons[OF Cons.prems(1)] obtain d where d: "read_byte p c = Inr d" "read_loop ps d = Inr c'"
    by blast
  from read_byte_closed[OF d(1)] Cons.prems(2) have "m_closed d" by simp
  from Cons.IH[OF d(2) this] read_byte_closed_wire[OF d(1) Cons.prems(2)] show ?case by simp
qed

lemma read_loop_total: "\<exists>c'. read_loop ps c = Inr c'"
proof (induction ps arbitrary: c)
  case Nil
  then show ?case by simp
next
  case (Cons p ps)
  obtain d where "read_byte p c = Inr d" using read_byte_total by blast
  with Cons[of d] show ?case by simp
qed

lemma read_loop_append:
  "read_loop (as @ bs) c = (case read_loop as c of Inl x \<Rightarrow> Inl x | Inr d \<Rightarrow> read_loop bs d)"
  by (induction as arbitrary: c) (auto split: sum.splits)

lemma handle_read_success:
  "handle_read success buf c = Inr c' \<Longrightarrow>
     \<exists>d. read_loop buf c = Inr d \<and> c' = d\<lparr>m_socket := async_read_some (m_socket d)\<rparr>"
  by (auto simp: handle_read_def split: sum.splits)

lemma handle_read_cases:
  assumes "handle_read e buf c = Inr c'"
  obtains
    (ok) d where "e = success" "read_loop buf c = Inr d"
      "c' = d\<lparr>m_socket := async_read_some (m_socket d)\<rparr>"
  | (failed) "e \<noteq> success" "e \<noteq> operation_aborted"
      "c' = c\<lparr>m_reply_queue := [], m_socket := close (m_socket c), m_closed := True\<rparr>"
  | (aborted) "e = operation_aborted" "c' = c"
  using assms by (auto simp: handle_read_def split: sum.splits if_splits)

lemma wire_socket [simp]: "wire (c\<lparr>m_socket := s\<rparr>) = writes s"
  by (simp add: wire_def)

lemma writes_async_read [simp]: "writes (async_read_some s) = writes s"
  by (simp add: async_read_some_def)

lemma writes_close [simp]: "writes (close s) = writes s"
  by (simp add: close_def)

lemma writes_wire: "writes (m_socket c) = wire c"
  by (simp add: wire_def)

lemma history_async_read [simp]:
  "history (d\<lparr>m_socket := async_read_some (m_socket d)\<rparr>) = history d"
  by (simp add: history_def wire_def pending_def async_read_some_def)

lemma handle_read_wire: "handle_read e buf c = Inr c' \<Longrightarrow> prefix (wire c) (wire c')"
  by (erule handle_read_cases) (auto dest: read_loop_wire simp: writes_wire)

lemma handle_read_closed: "handle_read e buf c = Inr c' \<Longrightarrow> m_closed c \<Longrightarrow> m_closed c'"
  by (erule handle_read_cases) (auto dest: read_loop_closed)

lemma handle_read_closed_wire: "handle_read e buf c = Inr c' \<Longrightarrow> m_closed c \<Longrightarrow> wire c' = wire c"
  by (erule handle_read_cases) (auto dest: read_loop_closed_wire simp: writes_wire)

lemma timed_out_cases:
  assumes "timed_out e i c = Inr c'"
  obtains
    (fired) "e = success" "i < length (m_reply_queue c)"
      "c' = process_replies
              (c\<lparr>m_reply_queue := (m_reply_queue c)[i := (m_reply_queue c ! i)\<lparr>Reply.m_sleep := 0\<rparr>]\<rparr>)"
  | (cancelled) "e \<noteq> success" "c' = c"
  using assms by (auto simp: timed_out_def split: if_splits)

lemma pending_wake:
  "pending (c\<lparr>m_reply_queue := (m_reply_queue c)[i := (m_reply_queue c ! i)\<lparr>Reply.m_sleep := 0\<rparr>]\<rparr>) = pending c"
  by (cases "i < length (m_reply_queue c)")
     (simp_all add: pending_def map_update list_update_same_conv list_update_beyond)

lemma history_wake:
  "history (c\<lparr>m_reply_queue := (m_reply_queue c)[i := (m_reply_queue c ! i)\<lparr>Reply.m_sleep := 0\<rparr>]\<rparr>) = history c"
  using pending_wake[of c i] by (simp add: history_def)

lemma timed_out_history: "timed_out e i c = Inr c' \<Longrightarrow> history c' = history c"
  by (erule timed_out_cases) (simp_all add: history_process_replies history_wake)

lemma timed_out_wire: "timed_out e i c = Inr c' \<Longrightarrow> prefix (wire c) (wire c')"
proof (erule timed_out_cases)
  assume c': "c' = process_replies
              (c\<lparr>m_reply_queue := (m_reply_queue c)[i := (m_reply_queue c ! i)\<lparr>Reply.m_sleep := 0\<rparr>]\<rparr>)"
    (is "_ = process_replies ?d")
  have "wire ?d = wire c" by simp
  with wire_process_replies[of ?d] c' show ?thesis by simp
qed simp

lemma timed_out_closed: "timed_out e i c = Inr c' \<Longrightarrow> m_closed c' = m_closed c"
  by (erule timed_out_cases) (simp_all add: closed_process_replies)

lemma timed_out_closed_same: "timed_out e i c = Inr c' \<Longrightarrow> m_closed c \<Longrightarrow> wire c' = wire c"
  by (erule timed_out_cases) (simp_all add: process_replies_eq)

lemma run_Cons:
  "run (ev # evs) c = Inr c' \<Longrightarrow> \<exists>d. step ev c = Inr d \<and> run evs d = Inr c'"
  by (cases "step ev c") auto

lemma step_wire: "step ev c = Inr c' \<Longrightarrow> prefix (wire c) (wire c')"
  by (cases ev) (auto dest: handle_read_wire timed_out_wire)

lemma step_closed: "step ev c = Inr c' \<Longrightarrow> m_closed c \<Longrightarrow> m_closed c' \<and> wire c' = wire c"
  by (cases ev) (auto dest: handle_read_closed handle_read_closed_wire timed_out_closed timed_out_closed_same)

lemma run_wire: "run evs c = Inr c' \<Longrightarrow> prefix (wire c) (wire c')"
proof (induction evs arbitrary: c)
  case Nil
  then show ?case by simp
next
  case (Cons ev evs)
  from run_Cons[OF Cons.prems] obtain d where d: "step ev c = Inr d" "run evs d = Inr c'"
    by blast
  from step_wire[OF d(1)] Cons.IH[OF d(2)] show ?case
    by (rule prefix_order.trans)
qed

lemma run_closed: "run evs c = Inr c' \<Longrightarrow> m_closed c \<Longrightarrow> m_closed c' \<and> wire c' = wire c"
proof (induction evs arbitrary: c)
  case Nil
  then show ?case by simp
next
  case (Cons ev evs)
  from run_Cons[OF Cons.prems(1)] obtain d where d: "step ev c = Inr d" "run evs d = Inr c'"
    by blast
  from step_closed[OF d(1) Cons.prems(2)] Cons.IH[OF d(2)] show ?case by simp
qed

lemma step_history: "step ev c = Inr d \<Longrightarrow> \<not> read_failed ev \<Longrightarrow> prefix (history c) (history d)"
proof (cases ev)
  case (Read e buf)
  assume "step ev c = Inr d" "\<not> read_failed ev"
  with Read have h: "handle_read e buf c = Inr d" and e: "e = success \<or> e = operation_aborted"
    by auto
  from h show ?thesis
  proof (cases rule: handle_read_cases)
    case (ok d')
    then show ?thesis using read_loop_history[of buf c d'] by simp
  next
    case failed
    with e show ?thesis by simp
  next
    case aborted
    then show ?thesis by simp
  qed
next
  case (Timer e i)
  assume "step ev c = Inr d"
  with Timer show ?thesis by (auto dest: timed_out_history)
qed

lemma step_failed:
  "step ev c = Inr d \<Longrightarrow> read_failed ev \<Longrightarrow> m_closed d \<and> wire d = wire c"
  by (cases ev) (auto elim!: handle_read_cases simp: writes_wire)

lemma run_history:
  "run evs c = Inr c' \<Longrightarrow> \<not> list_ex read_failed evs \<Longrightarrow> prefix (history c) (history c')"
proof (induction evs arbitrary: c)
  case Nil
  then show ?case by simp
next
  case (Cons ev evs)
  from run_Cons[OF Cons.prems(1)] obtain d where d: "step ev c = Inr d" "run evs d = Inr c'"
    by blast
  from Cons.prems(2) have nf: "\<not> read_failed ev" "\<not> list_ex read_failed evs" by simp_all
  from step_history[OF d(1) nf(1)] Cons.IH[OF d(2) nf(2)] show ?case
    by (rule prefix_order.trans)
qed

lemma wire_prefix_history: "prefix (wire c) (history c)"
  by (simp add: history_def)

lemma run_wire_bounded: "run evs c = Inr c' \<Longrightarrow> \<exists>new. prefix (wire c') (history c @ new)"
proof (induction evs arbitrary: c)
  case Nil
  then have "prefix (wire c') (history c @ [])" by (simp add: wire_prefix_history)
  then show ?case by blast
next
  case (Cons ev evs)
  from run_Cons[OF Cons.prems(1)] obtain d where d: "step ev c = Inr d" "run evs d = Inr c'"
    by blast
  show ?case
  proof (cases "read_failed ev")
    case True
    from step_failed[OF d(1) True] run_closed[OF d(2)] have "wire c' = wire c" by simp
    then have "prefix (wire c') (history c @ [])" by (simp add: wire_prefix_history)
    then show ?thesis by blast
  next
    case False
    from step_history[OF d(1) False] obtain n where n: "history d = history c @ n"
      by (auto simp: prefix_def)
    from Cons.IH[OF d(2)] obtain new where "prefix (wire c') (history d @ new)" by blast
    with n have "prefix (wire c') (history c @ (n @ new))" by simp
    then show ?thesis by blast
  qed
qed

lemma torn_down_step:
  assumes "m_closed t" "m_reply_queue t = []" "\<not> is_open (m_socket t)"
    and "step ev t = Inr t'" "\<not> read_ok ev"
  shows "t' = t"
proof (cases ev)
  case (Read e buf)
  with assms(4,5) have "handle_read e buf t = Inr t'" "e \<noteq> success" by auto
  then show ?thesis
    using assms(1-3) by (cases rule: handle_read_cases) (simp_all add: close_def)
next
  case (Timer e i)
  with assms(4) have "timed_out e i t = Inr t'" by simp
  then show ?thesis
    using assms(2) by (cases rule: timed_out_cases) simp_all
qed

lemma torn_down_run:
  assumes "m_closed t" "m_reply_queue t = []" "\<not> is_open (m_socket t)"
    and "run evs t = Inr t'" "\<not> list_ex read_ok evs"
  shows "t' = t"
  using assms(4,5)
proof (induction evs)
  case Nil
  then show ?case by simp
next
  case (Cons ev evs)
  from run_Cons[OF Cons.prems(1)] obtain d where d: "step ev t = Inr d" "run evs d = Inr t'"
    by blast
  from Cons.prems(2) have n: "\<not> read_ok ev" "\<not> list_ex read_ok evs" by simp_all
  from torn_down_step[OF assms(1-3) d(1) n(1)] have "d = t" .
  with d(2) Cons.IH n(2) show ?case by simp
qed

lemmas parse_eval = read_byte_def parser_feed_def parser_init_def parser_reset_def parser_deref_def
  header_feed_def header_init_def header_newline_def header_reset_def header_bool_def
  strtoul_def skip_sign_def c_str_def isspace_def isdigit_def digit_val_def ULONG_MAX_def

lemmas conn_eval = handle_read_def timed_out_def queue_reply_eq process_replies_eq pushed_def
  ready_def is_sleeping_def start_def create_def async_read_some_def

lemma reply_of_text:
  "m_reply c = of_nat n \<Longrightarrow> reply_of c = reply_text (m_instance c) (m_request c) (Suc n)"
  by (simp add: reply_of_def reply_text_def body_of_def add.commute)

lemma numbered_same:
  "numbered c \<Longrightarrow> history c' = history c \<Longrightarrow> m_reply c' = m_reply c \<Longrightarrow>
   m_instance c' = m_instance c \<Longrightarrow> numbered c'"
  by (simp add: numbered_def)

lemma numbered_queue_reply:
  assumes "numbered c" "queue_reply c = Inr c'"
  shows "numbered c'"
proof -
  let ?n = "length (history c)"
  from assms(1) have r: "m_reply c = of_nat ?n"
    and old: "\<And>k. k < ?n \<Longrightarrow> \<exists>req. history c ! k = reply_text (m_instance c) req (Suc k)"
    by (simp_all add: numbered_def)
  have h: "history c' = history c @ [reply_text (m_instance c) (m_request c) (Suc ?n)]"
    using queue_reply_history[OF assms(2)] reply_of_text[OF r] by simp
  have i: "m_instance c' = m_instance c" and r': "m_reply c' = of_nat (Suc ?n)"
    using queue_reply_fields(2,4)[OF assms(2)] r by simp_all
  have "\<exists>req. history c' ! k = reply_text (m_instance c') req (Suc k)" if "k < length (history c')" for k
  proof (cases "k < ?n")
    case True
    with old[OF True] h i show ?thesis by (simp add: nth_append)
  next
    case False
    with that h have "k = ?n" by simp
    with h i show ?thesis by (auto simp: nth_append)
  qed
  with r' h show ?thesis by (simp add: numbered_def)
qed

lemma numbered_upd [simp]:
  "numbered (c\<lparr>m_eom := e\<rparr>) = numbered c" "numbered (c\<lparr>m_header := h\<rparr>) = numbered c"
  "numbered (c\<lparr>m_sleep := s\<rparr>) = numbered c" "numbered (c\<lparr>m_request := r\<rparr>) = numbered c"
  "numbered (c\<lparr>m_socket := async_read_some (m_socket c)\<rparr>) = numbered c"
  by (simp_all add: numbered_def)

lemma numbered_read_byte:
  assumes "numbered c" "read_byte p c = Inr c'"
  shows "numbered c'"
  using assms(2)
proof (cases rule: read_byte_cases)
  case (boundary d)
  from assms(1) have "numbered (c\<lparr>m_eom := parser_reset (parser_feed p (m_eom c)),
                       m_header := header_reset (header_feed p (m_header c))\<rparr>)"
    by simp
  from numbered_queue_reply[OF this boundary(2)] boundary(3) show ?thesis by simp
qed (use assms(1) in simp_all)

lemma numbered_read_loop: "numbered c \<Longrightarrow> read_loop ps c = Inr c' \<Longrightarrow> numbered c'"
proof (induction ps arbitrary: c)
  case Nil
  then show ?case by simp
next
  case (Cons p ps)
  from read_loop_Cons[OF Cons.prems(2)] obtain d where d: "read_byte p c = Inr d" "read_loop ps d = Inr c'"
    by blast
  from Cons.IH[OF numbered_read_byte[OF Cons.prems(1) d(1)] d(2)] show ?case .
qed

lemma process_replies_fields:
  "m_reply (process_replies c) = m_reply c" "m_instance (process_replies c) = m_instance c"
  "m_eom (process_replies c) = m_eom c" "m_header (process_replies c) = m_header c"
  "m_sleep (process_replies c) = m_sleep c" "m_request (process_replies c) = m_request c"
  by (simp_all add: process_replies_eq)

lemma numbered_step:
  assumes "numbered c" "step ev c = Inr c'" "\<not> read_failed ev"
  shows "numbered c'"
proof (cases ev)
  case (Read e buf)
  with assms(2,3) have h: "handle_read e buf c = Inr c'" and e: "e = success \<or> e = operation_aborted"
    by auto
  from h show ?thesis
  proof (cases rule: handle_read_cases)
    case (ok d)
    from numbered_read_loop[OF assms(1) ok(2)] ok(3) show ?thesis by simp
  next
    case failed
    with e show ?thesis by simp
  next
    case aborted
    with assms(1) show ?thesis by simp
  qed
next
  case (Timer e i)
  with assms(2) have "timed_out e i c = Inr c'" by simp
  then show ?thesis
  proof (cases rule: timed_out_cases)
    case fired
    show ?thesis
      by (rule numbered_same[OF assms(1)])
         (simp_all add: fired(3) history_process_replies history_wake process_replies_fields)
  next
    case cancelled
    with assms(1) show ?thesis by simp
  qed
qed

lemma step_instance: "step ev c = Inr c' \<Longrightarrow> m_instance c' = m_instance c"
proof (cases ev)
  case (Read e buf)
  assume "step ev c = Inr c'"
  with Read have "handle_read e buf c = Inr c'" by simp
  then show ?thesis
    by (cases rule: handle_read_cases) (auto dest: read_loop_instance)
next
  case (Timer e i)
  assume "step ev c = Inr c'"
  with Timer have "timed_out e i c = Inr c'" by simp
  then show ?thesis
    by (cases rule: timed_out_cases) (simp_all add: process_replies_fields)
qed

lemma numbered_run:
  "numbered c \<Longrightarrow> run evs c = Inr c' \<Longrightarrow> \<not> list_ex read_failed evs \<Longrightarrow>
   numbered c' \<and> m_instance c' = m_instance c"
proof (induction evs arbitrary: c)
  case Nil
  then show ?case by simp
next
  case (Cons ev evs)
  from run_Cons[OF Cons.prems(2)] obtain d where d: "step ev c = Inr d" "run evs d = Inr c'"
    by blast
  from Cons.prems(3) have nf: "\<not> read_failed ev" "\<not> list_ex read_failed evs" by simp_all
  from Cons.IH[OF numbered_step[OF Cons.prems(1) d(1) nf(1)] d(2) nf(2)] step_instance[OF d(1)]
  show ?case by simp
qed

lemma fmt_d_of_nat: "k < 2 ^ 31 \<Longrightarrow> fmt_d (of_nat k) = dec k"
proof -
  assume k: "k < 2 ^ 31"
  have "sint (of_nat k :: 32 word) = signed_take_bit 31 (int k)"
    by (simp add: signed_of_nat)
  also have "\<dots> = int k"
    using k by (intro signed_take_bit_int_eq_self) simp_all
  finally show ?thesis by (simp add: fmt_d_def)
qed

lemma reply_unfold:
  "reply (of_nat (length (body_fmt rep inst req)) + 27) inst req rep (body_fmt rep inst req) =
     ''HTTP/1.1 200 OK'' @ CRLF @
     ''Keep-Alive: timeout=10 max=400'' @ CRLF @
     ''Content-Length: '' @
       dec (length (''<html><body>'' @ body_fmt rep inst req @ ''</body></html>'' @ [LF])) @ CRLF @
     ''Content-Type: text/html'' @ CRLF @
     ''X-Connection: '' @ fmt_d inst @ CRLF @
     ''X-Request: '' @ fmt_lu req @ CRLF @
     ''X-Reply: '' @ fmt_d rep @ CRLF @
     CRLF @
     ''<html><body>'' @ body_fmt rep inst req @ ''</body></html>'' @ [LF]"
  using reply_of_unfold[of "\<lparr>m_instance = inst, m_reply = rep - 1, m_closed = False,
      m_socket = \<lparr>is_open = False, writes = [], reads = 0\<rparr>,
      m_eom = parser_init CRLFCRLF, m_header = header_init,
      m_sleep = 0, m_request = req, m_reply_queue = []\<rparr>"]
  by (simp add: reply_of_def body_of_def)

lemma parser_init_eom: "parser_init CRLFCRLF = eom_at 0"
  by (simp add: parser_init_def parser_reset_def eom_at_def)

lemma lt4: "n < 4 \<Longrightarrow> n = 0 \<or> n = Suc 0 \<or> n = 2 \<or> n = (3::nat)"
  by arith

lemma eom_feed_other:
  "n < 4 \<Longrightarrow> x \<noteq> CR \<Longrightarrow> x \<noteq> LF \<Longrightarrow> parser_feed x (eom_at n) = eom_at 0"
  by (drule lt4) (auto simp: parser_feed_def eom_at_def parser_deref_def parser_reset_def)

lemma eom_feed_CR:
  "parser_feed CR (eom_at 0) = eom_at 1" "parser_feed CR (eom_at 2) = eom_at 3"
  "parser_feed CR (eom_at (Suc 0)) = eom_at 0" "parser_feed CR (eom_at 3) = eom_at 0"
  by (simp_all add: parser_feed_def eom_at_def parser_deref_def parser_reset_def)

lemma eom_feed_LF:
  "parser_feed LF (eom_at (Suc 0)) = eom_at 2"
  "parser_feed LF (eom_at 3) = \<lparr>parser.m_str = CRLFCRLF, m_match = True, m_ptr = 4\<rparr>"
  "parser_feed LF (eom_at 0) = eom_at 0" "parser_feed LF (eom_at 2) = eom_at 0"
  by (simp_all add: parser_feed_def eom_at_def parser_deref_def parser_reset_def)

lemma eom_at_match [simp]: "\<not> m_match (eom_at n)"
  by (simp add: eom_at_def)

lemma parser_feeds_simps [simp]:
  "parser_feeds [] p = p" "parser_feeds (c # cs) p = parser_feeds cs (parser_feed c p)"
  by (simp_all add: parser_feeds_def)

lemma parser_feeds_append: "parser_feeds (as @ bs) p = parser_feeds bs (parser_feeds as p)"
  by (simp add: parser_feeds_def)

lemma parser_reports_append:
  "parser_reports (as @ bs) p = parser_reports as p @ parser_reports bs (parser_feeds as p)"
  by (induction as arbitrary: p) simp_all

lemma eom_plain:
  "n < 4 \<Longrightarrow> CR \<notin> set bs \<Longrightarrow> LF \<notin> set bs \<Longrightarrow>
   True \<notin> set (parser_reports bs (eom_at n)) \<and>
   parser_feeds bs (eom_at n) = (if bs = [] then eom_at n else eom_at 0)"
proof (induction bs arbitrary: n)
  case Nil
  then show ?case by simp
next
  case (Cons b bs)
  from Cons.prems have f: "parser_feed b (eom_at n) = eom_at 0"
    by (intro eom_feed_other) auto
  from Cons.IH[of 0] Cons.prems f show ?case by auto
qed

lemma eom_line:
  assumes "n < 4" "body \<noteq> []" "CR \<notin> set body" "LF \<notin> set body"
  shows "True \<notin> set (parser_reports (body @ CRLF) (eom_at n))"
    and "parser_feeds (body @ CRLF) (eom_at n) = eom_at 2"
  using eom_plain[OF assms(1,3,4)] assms(2)
  by (simp_all add: parser_reports_append parser_feeds_append eom_feed_CR eom_feed_LF)

lemma header_feeds_simps [simp]:
  "header_feeds [] h = h" "header_feeds (c # cs) h = header_feeds cs (header_feed c h)"
  by (simp_all add: header_feeds_def)

lemma header_feeds_append: "header_feeds (as @ bs) h = header_feeds bs (header_feeds as h)"
  by (simp add: header_feeds_def)

lemma header_reports_append:
  "header_reports (as @ bs) h = header_reports as h @ header_reports bs (header_feeds as h)"
  by (induction as arbitrary: h) simp_all

lemma header_reset_init [simp]: "header_reset h = header_init"
  by (simp add: header_reset_def header_init_def)

lemma header_feed_matched: "m_state h = s_matched \<Longrightarrow> header_feed c h = header_feed c header_init"
  by (simp add: header_feed_def header_init_def)

lemma header_feed_line_start: "line_start h \<Longrightarrow> header_feed c h = header_feed c header_init"
  by (auto simp: line_start_def header_feed_matched)

lemma header_first:
  "x \<noteq> LF \<Longrightarrow>
   header_feed x header_init = \<lparr>m_key = [x], m_value = [], m_state = s_key, m_error = False\<rparr>"
  by (simp add: header_feed_def header_init_def header_newline_def)

lemma header_key_byte:
  "x \<noteq> LF \<Longrightarrow> x \<noteq> CHR '':'' \<Longrightarrow>
   header_feed x \<lparr>m_key = k, m_value = v, m_state = s_key, m_error = e\<rparr> =
     \<lparr>m_key = k @ [x], m_value = v, m_state = s_key, m_error = e\<rparr>"
  by (simp add: header_feed_def header_newline_def)

lemma header_key_bytes:
  "LF \<notin> set bs \<Longrightarrow> CHR '':'' \<notin> set bs \<Longrightarrow>
   True \<notin> set (header_reports bs \<lparr>m_key = k, m_value = v, m_state = s_key, m_error = e\<rparr>) \<and>
   header_feeds bs \<lparr>m_key = k, m_value = v, m_state = s_key, m_error = e\<rparr> =
     \<lparr>m_key = k @ bs, m_value = v, m_state = s_key, m_error = e\<rparr>"
proof (induction bs arbitrary: k)
  case Nil
  then show ?case by simp
next
  case (Cons b bs)
  from Cons.prems have f: "header_feed b \<lparr>m_key = k, m_value = v, m_state = s_key, m_error = e\<rparr> =
     \<lparr>m_key = k @ [b], m_value = v, m_state = s_key, m_error = e\<rparr>"
    by (intro header_key_byte) auto
  from Cons.IH[of "k @ [b]"] Cons.prems f show ?case by (simp add: header_bool_def)
qed

lemma header_key:
  assumes "line_start h" "k \<noteq> []" "LF \<notin> set k" "CHR '':'' \<notin> set k"
  shows "True \<notin> set (header_reports k h)"
    and "header_feeds k h = \<lparr>m_key = k, m_value = [], m_state = s_key, m_error = False\<rparr>"
proof -
  from assms(2) obtain x xs where k: "k = x # xs" by (cases k) auto
  with assms(3) have x: "x \<noteq> LF" by auto
  have f: "header_feed x h = \<lparr>m_key = [x], m_value = [], m_state = s_key, m_error = False\<rparr>"
    using header_feed_line_start[OF assms(1)] header_first[OF x] by simp
  from assms(3,4) k have "LF \<notin> set xs" "CHR '':'' \<notin> set xs" by auto
  from header_key_bytes[OF this, of "[x]" "[]" False] f k
  show "True \<notin> set (header_reports k h)"
    and "header_feeds k h = \<lparr>m_key = k, m_value = [], m_state = s_key, m_error = False\<rparr>"
    by (simp_all add: header_bool_def)
qed

lemma header_value_bytes:
  "LF \<notin> set bs \<Longrightarrow> CR \<notin> set bs \<Longrightarrow>
   True \<notin> set (header_reports bs \<lparr>m_key = k, m_value = v, m_state = s_value, m_error = e\<rparr>) \<and>
   header_feeds bs \<lparr>m_key = k, m_value = v, m_state = s_value, m_error = e\<rparr> =
     \<lparr>m_key = k, m_value = v @ bs, m_state = s_value, m_error = e\<rparr>"
proof (induction bs arbitrary: v)
  case Nil
  then show ?case by simp
next
  case (Cons b bs)
  from Cons.prems have f: "header_feed b \<lparr>m_key = k, m_value = v, m_state = s_value, m_error = e\<rparr> =
     \<lparr>m_key = k, m_value = v @ [b], m_state = s_value, m_error = e\<rparr>"
    by (auto simp: header_feed_def header_newline_def)
  from Cons.IH[of "v @ [b]"] Cons.prems f show ?case by (simp add: header_bool_def)
qed

lemma header_field_line:
  assumes "line_start h" "wf_line (Field k v)"
  shows "True \<notin> set (header_reports (k @ '': '' @ v @ [CR]) h)"
    and "header_feeds (k @ '': '' @ v @ [CR]) h =
           \<lparr>m_key = k, m_value = v, m_state = s_carriage_return, m_error = False\<rparr>"
    and "header_feed LF \<lparr>m_key = k, m_value = v, m_state = s_carriage_return, m_error = False\<rparr> =
           \<lparr>m_key = k, m_value = v, m_state = s_matched, m_error = False\<rparr>"
proof -
  from assms(2) have k: "k \<noteq> []" "LF \<notin> set k" "CHR '':'' \<notin> set k" and v: "LF \<notin> set v" "CR \<notin> set v"
    by simp_all
  have c: "header_feed (CHR '':'') \<lparr>m_key = k, m_value = [], m_state = s_key, m_error = False\<rparr> =
      \<lparr>m_key = k, m_value = [], m_state = s_colon, m_error = False\<rparr>"
    by (simp add: header_feed_def header_newline_def)
  have s: "header_feed (CHR '' '') \<lparr>m_key = k, m_value = [], m_state = s_colon, m_error = False\<rparr> =
      \<lparr>m_key = k, m_value = [], m_state = s_value, m_error = False\<rparr>"
    by (simp add: header_feed_def header_newline_def)
  have r: "header_feed CR \<lparr>m_key = k, m_value = v, m_state = s_value, m_error = False\<rparr> =
      \<lparr>m_key = k, m_value = v, m_state = s_carriage_return, m_error = False\<rparr>"
    by (simp add: header_feed_def header_newline_def)
  note kk = header_key[OF assms(1) k]
  note vv = header_value_bytes[OF v, of k "[]" False]
  show "True \<notin> set (header_reports (k @ '': '' @ v @ [CR]) h)"
    using kk vv by (simp add: header_reports_append header_feeds_append c s r header_bool_def)
  show "header_feeds (k @ '': '' @ v @ [CR]) h =
           \<lparr>m_key = k, m_value = v, m_state = s_carriage_return, m_error = False\<rparr>"
    using kk vv by (simp add: header_feeds_append c s r)
  show "header_feed LF \<lparr>m_key = k, m_value = v, m_state = s_carriage_return, m_error = False\<rparr> =
           \<lparr>m_key = k, m_value = v, m_state = s_matched, m_error = False\<rparr>"
    by (simp add: header_feed_def header_newline_def)
qed

lemma header_err_byte:
  "m_error h \<Longrightarrow> m_state h \<noteq> s_matched \<Longrightarrow> x \<noteq> LF \<Longrightarrow>
   m_error (header_feed x h) \<and> m_state (header_feed x h) \<noteq> s_matched"
  by (cases "m_state h") (auto simp: header_feed_def header_newline_def)

lemma header_err_LF:
  "m_error h \<Longrightarrow> m_state h \<noteq> s_matched \<Longrightarrow> header_feed LF h = header_init"
  by (cases "m_state h") (auto simp: header_feed_def header_newline_def)

lemma header_err_bytes:
  "m_error h \<Longrightarrow> m_state h \<noteq> s_matched \<Longrightarrow> LF \<notin> set bs \<Longrightarrow>
   True \<notin> set (header_reports bs h) \<and>
   m_error (header_feeds bs h) \<and> m_state (header_feeds bs h) \<noteq> s_matched"
proof (induction bs arbitrary: h)
  case Nil
  then show ?case by simp
next
  case (Cons b bs)
  from Cons.prems have b: "b \<noteq> LF" and bs: "LF \<notin> set bs" by auto
  from header_err_byte[OF Cons.prems(1,2) b]
  have e: "m_error (header_feed b h)" "m_state (header_feed b h) \<noteq> s_matched" by simp_all
  from Cons.IH[OF e bs] e show ?case by (simp add: header_bool_def)
qed

lemma header_err_line:
  assumes "m_error h" "m_state h \<noteq> s_matched" "LF \<notin> set bs"
  shows "True \<notin> set (header_reports (bs @ [LF]) h)" and "header_feeds (bs @ [LF]) h = header_init"
  using header_err_bytes[OF assms] header_err_LF[of "header_feeds bs h"]
  by (simp_all add: header_reports_append header_feeds_append header_bool_def header_init_def)

lemma header_plain_line:
  assumes "line_start h" "s \<noteq> []" "CHR '':'' \<notin> set s" "LF \<notin> set s"
  shows "True \<notin> set (header_reports (s @ [LF]) h)" and "header_feeds (s @ [LF]) h = header_init"
proof -
  have l: "header_feed LF \<lparr>m_key = s, m_value = [], m_state = s_key, m_error = False\<rparr> = header_init"
    by (simp add: header_feed_def header_newline_def)
  note k = header_key[OF assms(1,2,4,3)]
  show "True \<notin> set (header_reports (s @ [LF]) h)"
    using k l by (simp add: header_reports_append header_bool_def header_init_def)
  show "header_feeds (s @ [LF]) h = header_init"
    using k l by (simp add: header_feeds_append)
qed

lemma header_malformed_line:
  assumes "line_start h" "key \<noteq> []" "CHR '':'' \<notin> set key" "LF \<notin> set key"
    and "LF \<notin> set tail" "tail = [] \<or> hd tail \<noteq> CHR '' ''"
  shows "True \<notin> set (header_reports (key @ CHR '':'' # tail @ [LF]) h)"
    and "header_feeds (key @ CHR '':'' # tail @ [LF]) h = header_init"
proof -
  let ?K = "\<lparr>m_key = key, m_value = [], m_state = s_key, m_error = False\<rparr>"
  let ?C = "\<lparr>m_key = key, m_value = [], m_state = s_colon, m_error = False\<rparr>"
  let ?E = "\<lparr>m_key = key, m_value = [], m_state = s_colon, m_error = True\<rparr>"
  note k = header_key[OF assms(1,2,4,3)]
  have c: "header_feed (CHR '':'') ?K = ?C"
    by (simp add: header_feed_def header_newline_def)
  have rest: "True \<notin> set (header_reports (tail @ [LF]) ?C) \<and> header_feeds (tail @ [LF]) ?C = header_init"
  proof (cases tail)
    case Nil
    then show ?thesis
      by (simp add: header_feed_def header_newline_def header_bool_def header_init_def)
  next
    case (Cons y t)
    with assms(5,6) have y: "y \<noteq> CHR '' ''" "y \<noteq> LF" and t: "LF \<notin> set t" by auto
    from y have f: "header_feed y ?C = ?E"
      by (simp add: header_feed_def header_newline_def)
    from header_err_line[of ?E t] t f Cons show ?thesis
      by (simp add: header_bool_def)
  qed
  show "True \<notin> set (header_reports (key @ CHR '':'' # tail @ [LF]) h)"
    using k c rest by (simp add: header_reports_append header_bool_def)
  show "header_feeds (key @ CHR '':'' # tail @ [LF]) h = header_init"
    using k c rest by (simp add: header_feeds_append)
qed

lemma no_field_split:
  assumes "no_field s" "CHR '':'' \<in> set s"
  obtains key t where "s = key @ CHR '':'' # t" "key \<noteq> []" "CHR '':'' \<notin> set key"
    "t = [] \<or> hd t \<noteq> CHR '' ''"
proof -
  let ?key = "takeWhile (\<lambda>x. x \<noteq> CHR '':'') s"
  let ?r = "dropWhile (\<lambda>x. x \<noteq> CHR '':'') s"
  from assms(2) have "?r \<noteq> []" by (simp add: dropWhile_eq_Nil_conv)
  then obtain x t where r: "?r = x # t" by (cases ?r) auto
  then have x: "x = CHR '':''" using hd_dropWhile[of "\<lambda>x. x \<noteq> CHR '':''" s] by force
  have s: "s = ?key @ CHR '':'' # t" using takeWhile_dropWhile_id[of "\<lambda>x. x \<noteq> CHR '':''" s] r x by simp
  from assms(1) r have h: "hd s \<noteq> CHR '':''" and t: "t = [] \<or> hd t \<noteq> CHR '' ''"
    by (auto simp: no_field_def split: list.splits)
  from h assms(2) have "?key \<noteq> []" by (cases s) auto
  moreover have "CHR '':'' \<notin> set ?key" by (auto dest: set_takeWhileD)
  ultimately show ?thesis using s t that by blast
qed

lemma header_other_line:
  assumes "line_start h" "wf_line (Other s)"
  shows "True \<notin> set (header_reports (s @ CRLF) h)" and "header_feeds (s @ CRLF) h = header_init"
proof -
  from assms(2) have s: "s \<noteq> []" "CR \<notin> set s" "LF \<notin> set s" "no_field s" by simp_all
  have "True \<notin> set (header_reports (s @ CRLF) h) \<and> header_feeds (s @ CRLF) h = header_init"
  proof (cases "CHR '':'' \<in> set s")
    case False
    from header_plain_line[OF assms(1), of "s @ [CR]"] False s show ?thesis by simp
  next
    case True
    from no_field_split[OF s(4) True] obtain key t where
      kt: "s = key @ CHR '':'' # t" "key \<noteq> []" "CHR '':'' \<notin> set key" "t = [] \<or> hd t \<noteq> CHR '' ''"
      by blast
    from kt(1) s(3) have "LF \<notin> set key" "LF \<notin> set (t @ [CR])" by auto
    moreover from kt(4) have "t @ [CR] = [] \<or> hd (t @ [CR]) \<noteq> CHR '' ''" by (cases t) auto
    ultimately show ?thesis
      using header_malformed_line[OF assms(1) kt(2,3), of "t @ [CR]"] kt(1) by simp
  qed
  then show "True \<notin> set (header_reports (s @ CRLF) h)" and "header_feeds (s @ CRLF) h = header_init"
    by simp_all
qed

lemma header_cr_LF:
  "header_feed LF \<lparr>m_key = k, m_value = v, m_state = s_carriage_return, m_error = False\<rparr> =
     \<lparr>m_key = k, m_value = v, m_state = s_matched, m_error = False\<rparr>"
  by (simp add: header_feed_def header_newline_def)

lemma read_byte_quiet:
  "\<not> m_match (parser_feed p (m_eom c)) \<Longrightarrow> \<not> header_bool (header_feed p (m_header c)) \<Longrightarrow>
   read_byte p c = Inr (c\<lparr>m_eom := parser_feed p (m_eom c), m_header := header_feed p (m_header c)\<rparr>)"
  by (simp add: read_byte_def Let_def)

lemma read_loop_quiet:
  "True \<notin> set (parser_reports bs (m_eom c)) \<Longrightarrow> True \<notin> set (header_reports bs (m_header c)) \<Longrightarrow>
   read_loop bs c =
     Inr (c\<lparr>m_eom := parser_feeds bs (m_eom c), m_header := header_feeds bs (m_header c)\<rparr>)"
proof (induction bs arbitrary: c)
  case Nil
  then show ?case by simp
next
  case (Cons b bs)
  let ?d = "c\<lparr>m_eom := parser_feed b (m_eom c), m_header := header_feed b (m_header c)\<rparr>"
  from Cons.prems have q: "\<not> m_match (parser_feed b (m_eom c))"
      "\<not> header_bool (header_feed b (m_header c))"
    and r: "True \<notin> set (parser_reports bs (m_eom ?d))" "True \<notin> set (header_reports bs (m_header ?d))"
    by auto
  from Cons.IH[OF r] read_byte_quiet[OF q] show ?case by simp
qed

lemma read_loop_snoc:
  "read_loop (bs @ [b]) c = (case read_loop bs c of Inl x \<Rightarrow> Inl x | Inr d \<Rightarrow> read_byte b d)"
  by (simp add: read_loop_append split: sum.splits)

lemma field_line_read:
  assumes "m_eom c = eom_at n" "n < 4" "line_start (m_header c)" "wf_line (Field k v)"
  shows "read_loop (line_bytes (Field k v)) c =
           Inr (c\<lparr>m_eom := eom_at 2,
                  m_header := \<lparr>m_key = k, m_value = v, m_state = s_matched, m_error = False\<rparr>,
                  m_sleep := (if k = ''X-Sleep'' then strtoul v else m_sleep c),
                  m_request := (if k = ''X-Request'' then strtoul v else m_request c)\<rparr>)"
proof -
  let ?body = "k @ '': '' @ v"
  from assms(4) have b: "?body \<noteq> []" "CR \<notin> set ?body" "LF \<notin> set ?body" by auto
  from eom_plain[OF assms(2) b(2,3)] b(1)
  have p: "True \<notin> set (parser_reports (?body @ [CR]) (eom_at n))"
    and pf: "parser_feeds (?body @ [CR]) (eom_at n) = eom_at 1"
    by (simp_all add: parser_reports_append parser_feeds_append eom_feed_CR)
  note h = header_field_line[OF assms(3,4)]
  have "read_loop (?body @ [CR]) c =
     Inr (c\<lparr>m_eom := eom_at 1,
            m_header := \<lparr>m_key = k, m_value = v, m_state = s_carriage_return, m_error = False\<rparr>\<rparr>)"
    using read_loop_quiet[of "?body @ [CR]" c] p pf h(1,2) assms(1) by simp
  moreover have "line_bytes (Field k v) = (?body @ [CR]) @ [LF]" by simp
  ultimately show ?thesis
    unfolding read_loop_snoc[of "?body @ [CR]" LF c, folded \<open>line_bytes (Field k v) = (?body @ [CR]) @ [LF]\<close>]
    by (simp add: read_byte_def Let_def eom_feed_LF header_cr_LF header_bool_def)
qed

lemma other_line_read:
  assumes "m_eom c = eom_at n" "n < 4" "line_start (m_header c)" "wf_line (Other s)"
  shows "read_loop (line_bytes (Other s)) c = Inr (c\<lparr>m_eom := eom_at 2, m_header := header_init\<rparr>)"
proof -
  from assms(4) have s: "s \<noteq> []" "CR \<notin> set s" "LF \<notin> set s" by simp_all
  note p = eom_line[OF assms(2) s]
  note h = header_other_line[OF assms(3,4)]
  from read_loop_quiet[of "s @ CRLF" c] p h assms(1) show ?thesis by simp
qed

lemma boundary_read:
  assumes "m_eom c = eom_at 2" "line_start (m_header c)"
  shows "read_loop CRLF c =
           (case queue_reply (c\<lparr>m_eom := eom_at 0, m_header := header_init\<rparr>) of
              Inl e \<Rightarrow> Inl e | Inr d \<Rightarrow> Inr (d\<lparr>m_sleep := 0\<rparr>))"
proof -
  have h1: "header_feed CR (m_header c) = \<lparr>m_key = [CR], m_value = [], m_state = s_key, m_error = False\<rparr>"
    using header_feed_line_start[OF assms(2)] header_first[of CR] by simp
  have 1: "read_byte CR c = Inr (c\<lparr>m_eom := eom_at 3,
              m_header := \<lparr>m_key = [CR], m_value = [], m_state = s_key, m_error = False\<rparr>\<rparr>)"
    using read_byte_quiet[of CR c] assms(1) h1 by (simp add: eom_feed_CR header_bool_def)
  have r: "parser_reset \<lparr>parser.m_str = CRLFCRLF, m_match = True, m_ptr = 4\<rparr> = eom_at 0"
    by (simp add: parser_reset_def eom_at_def)
  show ?thesis
    by (simp add: 1) (simp add: read_byte_def Let_def eom_feed_LF r split: sum.splits)
qed

lemma value_after_Cons: "value_after key x (l # ls) = value_after key (value_after key x [l]) ls"
  by (cases l) (simp_all add: value_after_def)

lemma value_after_single:
  "value_after key x [Field k v] = (if k = key then strtoul v else x)"
  "value_after key x [Other s] = x"
  by (simp_all add: value_after_def)

lemma line_read:
  assumes "m_eom c = eom_at n" "n < 4" "line_start (m_header c)" "wf_line l"
  shows "\<exists>h. line_start h \<and>
           read_loop (line_bytes l) c =
             Inr (c\<lparr>m_eom := eom_at 2, m_header := h,
                    m_sleep := value_after ''X-Sleep'' (m_sleep c) [l],
                    m_request := value_after ''X-Request'' (m_request c) [l]\<rparr>)"
proof (cases l)
  case (Field k v)
  have "line_start \<lparr>m_key = k, m_value = v, m_state = s_matched, m_error = False\<rparr>"
    by (simp add: line_start_def)
  with field_line_read[OF assms(1-3), of k v] assms(4) Field show ?thesis
    by (auto simp: value_after_single)
next
  case (Other s)
  have "line_start header_init" by (simp add: line_start_def)
  with other_line_read[OF assms(1-3), of s] assms(4) Other show ?thesis
    by (auto simp: value_after_single)
qed

lemma lines_read:
  assumes "m_eom c = eom_at n" "n < 4" "line_start (m_header c)" "list_all wf_line (l # ls)"
  shows "\<exists>h. line_start h \<and>
           read_loop (concat (map line_bytes (l # ls))) c =
             Inr (c\<lparr>m_eom := eom_at 2, m_header := h,
                    m_sleep := value_after ''X-Sleep'' (m_sleep c) (l # ls),
                    m_request := value_after ''X-Request'' (m_request c) (l # ls)\<rparr>)"
  using assms
proof (induction ls arbitrary: l c n)
  case Nil
  from line_read[OF Nil(1-3), of l] Nil(4) show ?case by simp
next
  case (Cons l' ls)
  from Cons.prems(4) have wl: "wf_line l" and wr: "list_all wf_line (l' # ls)" by simp_all
  from line_read[OF Cons.prems(1-3) wl] obtain h where h: "line_start h"
    and r: "read_loop (line_bytes l) c =
             Inr (c\<lparr>m_eom := eom_at 2, m_header := h,
                    m_sleep := value_after ''X-Sleep'' (m_sleep c) [l],
                    m_request := value_after ''X-Request'' (m_request c) [l]\<rparr>)" (is "_ = Inr ?d")
    by blast
  have "m_eom ?d = eom_at 2" "(2::nat) < 4" "line_start (m_header ?d)" using h by simp_all
  from Cons.IH[OF this wr] obtain h' where h': "line_start h'"
    and r': "read_loop (concat (map line_bytes (l' # ls))) ?d =
             Inr (?d\<lparr>m_eom := eom_at 2, m_header := h',
                    m_sleep := value_after ''X-Sleep'' (m_sleep ?d) (l' # ls),
                    m_request := value_after ''X-Request'' (m_request ?d) (l' # ls)\<rparr>)"
    by blast
  have "read_loop (concat (map line_bytes (l # l' # ls))) c =
          Inr (c\<lparr>m_eom := eom_at 2, m_header := h',
                    m_sleep := value_after ''X-Sleep'' (m_sleep c) (l # l' # ls),
                    m_request := value_after ''X-Request'' (m_request c) (l # l' # ls)\<rparr>)"
    using r r'
    by (simp add: read_loop_append value_after_Cons[of _ _ l "l' # ls"] del: read_loop.simps)
  with h' show ?case by blast
qed

lemma reply_of_cong:
  "m_instance a = m_instance b \<Longrightarrow> m_request a = m_request b \<Longrightarrow> m_reply a = m_reply b \<Longrightarrow>
   reply_of a = reply_of b"
  by (simp add: reply_of_def body_of_def)

lemma request_read:
  assumes "request_start c" "wf_request ls"
  shows "\<exists>c'. read_loop (request ls) c = Inr c' \<and> request_start c' \<and>
               history c' = history c @ [reply_of (c\<lparr>m_request := last_value ''X-Request'' ls\<rparr>)] \<and>
               m_reply c' = m_reply c + 1 \<and> m_instance c' = m_instance c \<and>
               m_closed c' = m_closed c \<and> prefix (wire c) (wire c')"
proof -
  from assms(2) obtain l ls' where ls: "ls = l # ls'" and w: "list_all wf_line (l # ls')"
    by (cases ls) (auto simp: wf_request_def)
  from assms(1) have e: "m_eom c = eom_at 0" and s: "line_start (m_header c)"
    and z: "m_sleep c = 0" "m_request c = 0"
    by (simp_all add: request_start_def)
  from lines_read[OF e _ s w] obtain h where h: "line_start h"
    and r: "read_loop (concat (map line_bytes ls)) c =
             Inr (c\<lparr>m_eom := eom_at 2, m_header := h,
                    m_sleep := value_after ''X-Sleep'' 0 ls,
                    m_request := last_value ''X-Request'' ls\<rparr>)" (is "_ = Inr ?d")
    using ls z by (auto simp: last_value_def)
  let ?q = "?d\<lparr>m_eom := eom_at 0, m_header := header_init\<rparr>"
  obtain d' where q: "queue_reply ?q = Inr d'" using queue_reply_total by blast
  have b: "read_loop CRLF ?d = Inr (d'\<lparr>m_sleep := 0\<rparr>)"
    using boundary_read[of ?d] h q by simp
  have rr: "read_loop (request ls) c = Inr (d'\<lparr>m_sleep := 0\<rparr>)"
    unfolding request_def read_loop_append using r b by simp
  note f = queue_reply_fields[OF q]
  have "request_start (d'\<lparr>m_sleep := 0\<rparr>)"
    using f by (simp add: request_start_def line_start_def)
  moreover have "history (d'\<lparr>m_sleep := 0\<rparr>) =
      history c @ [reply_of (c\<lparr>m_request := last_value ''X-Request'' ls\<rparr>)]"
    using queue_reply_history[OF q] reply_of_cong[of ?q "c\<lparr>m_request := last_value ''X-Request'' ls\<rparr>"]
    by simp
  moreover have "prefix (wire c) (wire (d'\<lparr>m_sleep := 0\<rparr>))"
    using queue_reply_wire[OF q] by simp
  ultimately show ?thesis using rr f by simp
qed

lemma requests_read:
  assumes "request_start c" "list_all wf_request reqs"
  shows "\<exists>c'. read_loop (concat (map request reqs)) c = Inr c' \<and> request_start c' \<and>
               m_instance c' = m_instance c \<and> m_reply c' = m_reply c + of_nat (length reqs) \<and>
               length (history c') = length (history c) + length reqs \<and>
               prefix (history c) (history c') \<and>
               (\<forall>k < length reqs.
                  history c' ! (length (history c) + k) =
                    reply_of (c\<lparr>m_reply := m_reply c + of_nat k,
                                 m_request := last_value ''X-Request'' (reqs ! k)\<rparr>))"
  using assms(2)
proof (induction reqs rule: rev_induct)
  case Nil
  with assms(1) show ?case by simp
next
  case (snoc r reqs)
  from snoc.prems have w: "list_all wf_request reqs" "wf_request r" by simp_all
  from snoc.IH[OF w(1)] obtain c1 where c1: "read_loop (concat (map request reqs)) c = Inr c1"
    "request_start c1" "m_instance c1 = m_instance c" "m_reply c1 = m_reply c + of_nat (length reqs)"
    "length (history c1) = length (history c) + length reqs" "prefix (history c) (history c1)"
    and old: "\<And>k. k < length reqs \<Longrightarrow> history c1 ! (length (history c) + k) =
                    reply_of (c\<lparr>m_reply := m_reply c + of_nat k,
                                 m_request := last_value ''X-Request'' (reqs ! k)\<rparr>)"
    by blast
  from request_read[OF c1(2) w(2)] obtain c' where c': "read_loop (request r) c1 = Inr c'"
    "request_start c'"
    "history c' = history c1 @ [reply_of (c1\<lparr>m_request := last_value ''X-Request'' r\<rparr>)]"
    "m_reply c' = m_reply c1 + 1" "m_instance c' = m_instance c1"
    by blast
  have new: "reply_of (c1\<lparr>m_request := last_value ''X-Request'' r\<rparr>) =
      reply_of (c\<lparr>m_reply := m_reply c + of_nat (length reqs),
                   m_request := last_value ''X-Request'' r\<rparr>)"
    by (rule reply_of_cong) (simp_all add: c1(3,4))
  have "read_loop (concat (map request (reqs @ [r]))) c = Inr c'"
    using c1(1) c'(1) by (simp add: read_loop_append)
  moreover have "history c' ! (length (history c) + k) =
                    reply_of (c\<lparr>m_reply := m_reply c + of_nat k,
                                 m_request := last_value ''X-Request'' ((reqs @ [r]) ! k)\<rparr>)"
    if "k < length (reqs @ [r])" for k
  proof (cases "k < length reqs")
    case True
    with old[OF True] c'(3) c1(5) show ?thesis by (simp add: nth_append)
  next
    case False
    with that have "k = length reqs" by simp
    with c'(3) c1(5) new show ?thesis by (simp add: nth_append)
  qed
  moreover have "prefix (history c) (history c')"
    using c1(6) c'(3) by (auto simp: prefix_def)
  ultimately show ?case
    using c'(2,3,4,5) c1(3,4,5) by (auto simp: add.assoc)
qed

lemma same_parse_refl [simp]: "same_parse c c"
  by (simp add: same_parse_def)

lemma same_parse_sym: "same_parse c d \<Longrightarrow> same_parse d c"
  by (simp add: same_parse_def)

lemma same_parse_trans: "same_parse a b \<Longrightarrow> same_parse b c \<Longrightarrow> same_parse a c"
  by (simp add: same_parse_def)

lemma same_parse_queue_reply:
  assumes "same_parse c d" "queue_reply c = Inr c'" "queue_reply d = Inr d'"
  shows "same_parse c' d'"
proof -
  from assms(1) have "reply_of c = reply_of d"
    by (intro reply_of_cong) (simp_all add: same_parse_def)
  with queue_reply_history[OF assms(2)] queue_reply_history[OF assms(3)]
    queue_reply_fields[OF assms(2)] queue_reply_fields[OF assms(3)] assms(1)
  show ?thesis by (simp add: same_parse_def)
qed

lemma same_parse_upd:
  "same_parse c d \<Longrightarrow> same_parse (c\<lparr>m_eom := e, m_header := h\<rparr>) (d\<lparr>m_eom := e, m_header := h\<rparr>)"
  "same_parse c d \<Longrightarrow> same_parse (c\<lparr>m_sleep := s\<rparr>) (d\<lparr>m_sleep := s\<rparr>)"
  "same_parse c d \<Longrightarrow> same_parse (c\<lparr>m_request := r\<rparr>) (d\<lparr>m_request := r\<rparr>)"
  by (simp_all add: same_parse_def)

lemma same_parse_read_byte:
  assumes "same_parse c d" "read_byte p c = Inr c'" "read_byte p d = Inr d'"
  shows "same_parse c' d'"
proof -
  from assms(1) have e: "m_eom d = m_eom c" "m_header d = m_header c" by (simp_all add: same_parse_def)
  let ?e = "parser_feed p (m_eom c)" and ?h = "header_feed p (m_header c)"
  show ?thesis
  proof (cases "m_match ?e")
    case True
    let ?c = "c\<lparr>m_eom := parser_reset ?e, m_header := header_reset ?h\<rparr>"
    let ?d = "d\<lparr>m_eom := parser_reset ?e, m_header := header_reset ?h\<rparr>"
    obtain c2 where c2: "queue_reply ?c = Inr c2" using queue_reply_total by blast
    obtain d2 where d2: "queue_reply ?d = Inr d2" using queue_reply_total by blast
    from True c2 assms(2) have c': "c' = c2\<lparr>m_sleep := 0\<rparr>" by (simp add: read_byte_def Let_def)
    from True d2 assms(3) e have d': "d' = d2\<lparr>m_sleep := 0\<rparr>" by (simp add: read_byte_def Let_def)
    from same_parse_queue_reply[OF same_parse_upd(1)[OF assms(1)] c2 d2] c' d' show ?thesis
      by (simp add: same_parse_upd)
  next
    case False
    with assms(2,3) e assms(1) show ?thesis
      by (auto simp: read_byte_def Let_def same_parse_def split: if_splits)
  qed
qed

lemma same_parse_read_loop:
  assumes "same_parse c d" "read_loop ps c = Inr c'"
  shows "\<exists>d'. read_loop ps d = Inr d' \<and> same_parse c' d'"
  using assms
proof (induction ps arbitrary: c d)
  case Nil
  then show ?case by simp
next
  case (Cons p ps)
  from read_loop_Cons[OF Cons.prems(2)] obtain c1 where c1: "read_byte p c = Inr c1" "read_loop ps c1 = Inr c'"
    by blast
  obtain d1 where d1: "read_byte p d = Inr d1" using read_byte_total by blast
  from Cons.IH[OF same_parse_read_byte[OF Cons.prems(1) c1(1) d1] c1(2)] d1 show ?case by simp
qed

lemma same_parse_timed_out: "timed_out e i c = Inr c' \<Longrightarrow> same_parse c' c"
  by (erule timed_out_cases)
     (simp_all add: same_parse_def process_replies_fields history_process_replies history_wake)

lemma run_reads:
  assumes "run evs c = Inr c'" "\<not> list_ex read_failed evs"
  shows "\<exists>d. read_loop (input_of evs) c = Inr d \<and> same_parse c' d"
  using assms
proof (induction evs arbitrary: c)
  case Nil
  then show ?case by simp
next
  case (Cons ev evs)
  from run_Cons[OF Cons.prems(1)] obtain c1 where c1: "step ev c = Inr c1" "run evs c1 = Inr c'"
    by blast
  from Cons.prems(2) have nf: "\<not> read_failed ev" "\<not> list_ex read_failed evs" by simp_all
  from Cons.IH[OF c1(2) nf(2)] obtain d1 where d1: "read_loop (input_of evs) c1 = Inr d1" "same_parse c' d1"
    by blast
  show ?case
  proof (cases ev)
    case (Timer e i)
    with c1(1) have "same_parse c1 c" by (auto dest: same_parse_timed_out)
    from same_parse_read_loop[OF this d1(1)] obtain d where "read_loop (input_of evs) c = Inr d"
      "same_parse d1 d" by blast
    with d1(2) Timer show ?thesis by (auto intro: same_parse_trans)
  next
    case (Read e buf)
    with c1(1) have h: "handle_read e buf c = Inr c1" by simp
    from h show ?thesis
    proof (cases rule: handle_read_cases)
      case (ok dd)
      have "same_parse c1 dd" by (simp add: ok(3) same_parse_def)
      from same_parse_read_loop[OF this d1(1)] obtain d where "read_loop (input_of evs) dd = Inr d"
        "same_parse d1 d" by blast
      with d1(2) Read ok(1,2) show ?thesis
        by (auto simp: read_loop_append intro: same_parse_trans)
    next
      case failed
      with nf(1) Read show ?thesis by simp
    next
      case aborted
      with d1 Read show ?thesis by auto
    qed
  qed
qed

lemma eom_ok_at: "eom_ok c \<Longrightarrow> \<exists>n<4. m_eom c = eom_at n"
  by (cases "m_eom c") (auto simp: eom_ok_def eom_at_def)

lemma eom_at_ok: "m_eom c = eom_at n \<Longrightarrow> n < 4 \<Longrightarrow> eom_ok c"
  by (simp add: eom_ok_def eom_at_def)

lemma eom_feed_ok:
  assumes "n < 4" "\<not> m_match (parser_feed p (eom_at n))"
  shows "\<exists>k<4. parser_feed p (eom_at n) = eom_at k"
proof -
  from lt4[OF assms(1)] assms(2) show ?thesis
    by (auto simp: parser_feed_def eom_at_def parser_deref_def parser_reset_def split: if_splits)
qed

lemma eom_reset_ok: "n < 4 \<Longrightarrow> parser_reset (parser_feed p (eom_at n)) = eom_at 0"
  by (auto simp: parser_feed_def eom_at_def parser_deref_def parser_reset_def)

lemma eom_ok_read_byte:
  assumes "eom_ok c" "read_byte p c = Inr c'"
  shows "eom_ok c'"
proof -
  from eom_ok_at[OF assms(1)] obtain n where n: "n < 4" "m_eom c = eom_at n" by blast
  from assms(2) show ?thesis
  proof (cases rule: read_byte_cases)
    case (boundary d)
    from queue_reply_fields(5)[OF boundary(2)] eom_reset_ok[OF n(1), of p] n(2) boundary(3)
    show ?thesis by (simp add: eom_ok_def eom_at_def)
  next
    case sleep
    with eom_feed_ok[OF n(1), of p] n(2) show ?thesis by (auto intro: eom_at_ok)
  next
    case request
    with eom_feed_ok[OF n(1), of p] n(2) show ?thesis by (auto intro: eom_at_ok)
  next
    case other
    with eom_feed_ok[OF n(1), of p] n(2) show ?thesis by (auto intro: eom_at_ok)
  qed
qed

lemma eom_ok_create: "eom_ok (create inst)" "eom_ok (start (create inst))"
  by (simp_all add: eom_ok_def create_def start_def parser_init_def parser_reset_def)

lemma strtoul_no_number: "no_number v \<Longrightarrow> strtoul v = 0"
proof -
  assume n: "no_number v"
  have "takeWhile isdigit (subject v) = []"
    using n by (cases "subject v") (simp_all add: no_number_def)
  then show ?thesis by (simp add: strtoul_def Let_def subject_def)
qed



lemma header_after_LF: "line_start (header_feed LF h)"
  by (cases "m_state h")
     (auto simp: header_feed_def header_newline_def line_start_def header_init_def header_reset_def)

lemma parser_feeds_snoc: "parser_feeds (bs @ [b]) p = parser_feed b (parser_feeds bs p)"
  by (simp add: parser_feeds_def)

lemma matcher_invariant:
  "parser.m_str (parser_feeds bs (parser_init CRLFCRLF)) = CRLFCRLF \<and>
   (m_ptr (parser_feeds bs (parser_init CRLFCRLF)) \<le> 4 \<longrightarrow>
      suffix (take (m_ptr (parser_feeds bs (parser_init CRLFCRLF))) CRLFCRLF) bs) \<and>
   (m_match (parser_feeds bs (parser_init CRLFCRLF)) \<longrightarrow>
      m_ptr (parser_feeds bs (parser_init CRLFCRLF)) = 4)"
proof (induction bs rule: rev_induct)
  case Nil
  show ?case by (simp add: parser_init_def parser_reset_def)
next
  case (snoc b bs)
  let ?p = "parser_feeds bs (parser_init CRLFCRLF)"
  from snoc have s: "parser.m_str ?p = CRLFCRLF"
    and k: "m_ptr ?p \<le> 4 \<Longrightarrow> suffix (take (m_ptr ?p) CRLFCRLF) bs"
    by simp_all
  show ?case
  proof (cases "b = parser_deref ?p")
    case False
    then show ?thesis
      by (simp add: parser_feeds_snoc parser_feed_def parser_reset_def s)
  next
    case True
    have "suffix (take (Suc (m_ptr ?p)) CRLFCRLF) (bs @ [b])" if "m_ptr ?p < 4"
    proof -
      from that True s have b: "b = CRLFCRLF ! m_ptr ?p" by (simp add: parser_deref_def)
      from that have "take (Suc (m_ptr ?p)) CRLFCRLF = take (m_ptr ?p) CRLFCRLF @ [CRLFCRLF ! m_ptr ?p]"
        by (intro take_Suc_conv_app_nth) simp
      with k that b show ?thesis by (simp del: take_Suc_Cons)
    qed
    with True show ?thesis
      by (auto simp: parser_feeds_snoc parser_feed_def Let_def s)
  qed
qed

lemma matcher_reports_sound:
  "m_match (parser_feeds bs (parser_init CRLFCRLF)) \<Longrightarrow> suffix CRLFCRLF bs"
  using matcher_invariant[of bs] by auto

lemma handle_read_total: "\<exists>c'. handle_read e buf c = Inr c'"
  using read_loop_total[of buf c] by (auto simp: handle_read_def)

section \<open>The claims\<close>

subsection \<open>C1: replies leave in the order of their creation\<close>

text \<open>
  Claim C1. For every connection, replies are written to the socket in exactly the
  creation order of the entries of its reply queue, whatever the delays. Over any sequence
  of events (reads of any bytes, timers completing in any order, cancelled timers, failed
  reads) that the connection handles, from any state: the sequence of buffers handed to
  \<^verbatim>\<open>async_write\<close> is only ever extended; what has been written is always an initial
  part of the replies in creation order (those held at the start, followed by those created
  since); without a failed read, the written replies followed by the queued ones grow only
  at the end, so no reply is skipped or overtaken. The flush itself writes and pops
  exactly the longest run of ready replies at the front: it stops at the first sleeping
  reply, and no later reply, ready or not, is written before it.
\<close>

theorem replies_written_in_creation_order:
  assumes "run evs c = Inr c'"
  shows "prefix (wire c) (wire c') \<and>
         (\<exists>new. prefix (wire c') (history c @ new)) \<and>
         (\<not> list_ex read_failed evs \<longrightarrow> prefix (history c) (history c')) \<and>
         process_replies c =
           (if m_closed c then c
            else c\<lparr>m_socket := (m_socket c)\<lparr>writes := wire c @
                       map Reply.m_str (takeWhile ready (m_reply_queue c))\<rparr>,
                   m_reply_queue := dropWhile ready (m_reply_queue c)\<rparr>)"
  using run_wire[OF assms] run_wire_bounded[OF assms] run_history[OF assms]
  by (simp add: process_replies_eq writes_wire)

theorem replies_written_in_creation_order_witness:
  "\<exists>c'. run [Read success
               (''GET / HTTP/1.1'' @ CRLF @ ''X-Sleep: 5'' @ CRLF @ CRLF @
                ''GET / HTTP/1.1'' @ CRLF @ CRLF),
             Timer success 0] (start (create 1)) = Inr c' \<and>
        prefix (wire (start (create 1))) (wire c') \<and>
        prefix (history (start (create 1))) (history c') \<and>
        length (wire c') = 2"
proof -
  let ?evs = "[Read success
               (''GET / HTTP/1.1'' @ CRLF @ ''X-Sleep: 5'' @ CRLF @ CRLF @
                ''GET / HTTP/1.1'' @ CRLF @ CRLF),
             Timer success 0]"
  obtain c' where r: "run ?evs (start (create 1)) = Inr c'" and l: "length (wire c') = 2"
    by (simp add: parse_eval conn_eval wire_def)
  have "\<not> list_ex read_failed ?evs" by simp
  with replies_written_in_creation_order[OF r] r l show ?thesis by blast
qed

subsection \<open>C2: the boundary matcher\<close>

text \<open>
  Claim C2. Fed one byte at a time, the matcher for \<^verbatim>\<open>"\r\n\r\n"\<close> reports true after
  a byte exactly when an occurrence of the sequence ends there, because a byte that does
  not match at the cursor is tried again as the first byte of a new occurrence. The code
  does not try the byte again: \<^verbatim>\<open>parser::feed\<close> only resets. On the five bytes
  \<^verbatim>\<open>"\r\r\n\r\n"\<close> an occurrence ends at the fifth byte, the matcher reports false after
  each of the five, and a request that ends in these bytes gets no reply. (The other
  direction holds, lemma \<open>matcher_reports_sound\<close>: where the matcher reports true, an
  occurrence ends.)
\<close>

theorem boundary_matcher_misses_occurrence:
  "suffix CRLFCRLF [CR, CR, LF, CR, LF] \<and>
   map (\<lambda>n. m_match (parser_feeds (take n [CR, CR, LF, CR, LF]) (parser_init CRLFCRLF)))
     [1, 2, 3, 4, 5] = [False, False, False, False, False] \<and>
   map_sum id history
     (handle_read success (''GET / HTTP/1.1'' @ [CR] @ CRLFCRLF) (start (create 1))) = Inr []"
proof -
  have a: "suffix CRLFCRLF [CR, CR, LF, CR, LF]"
    by (simp add: suffix_def)
  have b: "map (\<lambda>n. m_match (parser_feeds (take n [CR, CR, LF, CR, LF]) (parser_init CRLFCRLF)))
     [1, 2, 3, 4, 5] = [False, False, False, False, False]"
    by (simp add: parser_feeds_def parser_feed_def parser_init_def parser_reset_def parser_deref_def)
  have c: "map_sum id history
     (handle_read success (''GET / HTTP/1.1'' @ [CR] @ CRLFCRLF) (start (create 1))) = Inr []"
    by (simp add: handle_read_def read_byte_def start_def create_def parser_feed_def parser_init_def
        parser_reset_def parser_deref_def header_feed_def header_init_def header_newline_def
        header_reset_def header_bool_def async_read_some_def history_def wire_def pending_def)
  from a b c show ?thesis by blast
qed

subsection \<open>C3: the echoed request identifier\<close>

text \<open>
  Claim C3. For every completed request of a connection, the \<^verbatim>\<open>X-Request\<close> value
  in its reply is the number of the \<^verbatim>\<open>X-Request\<close> line of that same request. The
  connection is between two requests (as a new connection is); it handles any events
  without a failed read, whose reads deliver, cut at any places, the bytes of a sequence of
  requests, each made of well-formed lines and ended by an empty line. Then one reply per
  request has been created, and the reply of the request number \<open>k\<close> carries the number that
  \<^verbatim>\<open>strtoul\<close> gives for the last \<^verbatim>\<open>X-Request\<close> field of that request (0 when it has
  none), in the header and in the body, whatever the other requests contained.
\<close>

theorem request_id_echoed:
  assumes "run evs c0 = Inr c" and "\<not> list_ex read_failed evs"
    and "request_start c0"
    and "input_of evs = concat (map request reqs)" and "list_all wf_request reqs"
    and "k < length reqs"
  shows "length (history c) = length (history c0) + length reqs \<and>
         history c ! (length (history c0) + k) =
           (let req = last_value ''X-Request'' (reqs ! k);
                rep = m_reply c0 + of_nat k + 1;
                inst = m_instance c0
            in ''HTTP/1.1 200 OK'' @ CRLF @
               ''Keep-Alive: timeout=10 max=400'' @ CRLF @
               ''Content-Length: '' @
                 dec (length (''<html><body>'' @ body_fmt rep inst req @ ''</body></html>'' @ [LF])) @
                 CRLF @
               ''Content-Type: text/html'' @ CRLF @
               ''X-Connection: '' @ fmt_d inst @ CRLF @
               ''X-Request: '' @ fmt_lu req @ CRLF @
               ''X-Reply: '' @ fmt_d rep @ CRLF @
               CRLF @
               ''<html><body>'' @ body_fmt rep inst req @ ''</body></html>'' @ [LF])"
proof -
  from run_reads[OF assms(1,2)] obtain d where d: "read_loop (input_of evs) c0 = Inr d"
    "same_parse c d" by blast
  from requests_read[OF assms(3,5)] d(1) assms(4)
  have l: "length (history d) = length (history c0) + length reqs"
    and n: "\<And>k. k < length reqs \<Longrightarrow> history d ! (length (history c0) + k) =
                    reply_of (c0\<lparr>m_reply := m_reply c0 + of_nat k,
                                  m_request := last_value ''X-Request'' (reqs ! k)\<rparr>)"
    by auto
  from d(2) have h: "history c = history d" by (simp add: same_parse_def)
  show ?thesis
    unfolding h Let_def using l n[OF assms(6)]
    by (simp only: reply_of_unfold body_of_def) simp
qed

theorem request_id_echoed_witness:
  "\<exists>c. run [Read success (''GET / HTTP/1.1'' @ CRLF @ ''X-Sleep: 5'' @ CRLF @ ''X-Req''),
            Timer operation_aborted 0,
            Read success (''uest: 7'' @ CRLF @ CRLF)] (start (create 1)) = Inr c \<and>
       length (history c) = 1 \<and>
       history c ! 0 =
         ''HTTP/1.1 200 OK'' @ CRLF @
         ''Keep-Alive: timeout=10 max=400'' @ CRLF @
         ''Content-Length: '' @
           dec (length (''<html><body>'' @ body_fmt 1 1 7 @ ''</body></html>'' @ [LF])) @ CRLF @
         ''Content-Type: text/html'' @ CRLF @
         ''X-Connection: '' @ fmt_d 1 @ CRLF @
         ''X-Request: '' @ fmt_lu 7 @ CRLF @
         ''X-Reply: '' @ fmt_d 1 @ CRLF @
         CRLF @
         ''<html><body>'' @ body_fmt 1 1 7 @ ''</body></html>'' @ [LF]"
proof -
  let ?evs = "[Read success (''GET / HTTP/1.1'' @ CRLF @ ''X-Sleep: 5'' @ CRLF @ ''X-Req''),
            Timer operation_aborted 0,
            Read success (''uest: 7'' @ CRLF @ CRLF)]"
  let ?reqs = "[[Other ''GET / HTTP/1.1'', Field ''X-Sleep'' ''5'', Field ''X-Request'' ''7'']]"
  obtain c where r: "run ?evs (start (create 1)) = Inr c"
    by (simp add: parse_eval conn_eval)
  have 1: "\<not> list_ex read_failed ?evs" by simp
  have 2: "request_start (start (create 1))"
    by (simp add: request_start_def start_def create_def parser_init_eom line_start_def)
  have 3: "input_of ?evs = concat (map request ?reqs)" by (simp add: request_def)
  have 4: "list_all wf_request ?reqs" by (simp add: wf_request_def no_field_def)
  have 5: "last_value ''X-Request'' (?reqs ! 0) = 7"
    by (simp add: last_value_def value_after_def parse_eval)
  have 6: "m_reply (start (create 1)) = 0" "m_instance (start (create 1)) = 1"
    "history (start (create 1)) = []"
    by (simp_all add: start_def create_def history_def wire_def pending_def async_read_some_def)
  from request_id_echoed[OF r 1 2 3 4, of 0] r show ?thesis
    unfolding 5 6 Let_def by simp
qed

subsection \<open>C4: the reply counter\<close>

text \<open>
  Claim C4. On every connection the \<open>k\<close>-th reply created carries
  \<^verbatim>\<open>X-Reply: k\<close>. A connection starts with the counter at 0 and without replies; after
  any sequence of events without a failed read (which would drop the queue), the counter
  equals the number of replies created, and the \<open>k\<close>-th of them in the order of creation
  is the reply text with \<^verbatim>\<open>X-Reply: \<close>\<open>k\<close>, for every \<open>k\<close> from 1 up to that number.
  The counter is an \<^verbatim>\<open>int\<close>, so \<open>k\<close> ranges over the positive values of an \<^verbatim>\<open>int\<close>.
\<close>

theorem reply_counter_sequence:
  assumes "run evs c0 = Inr c" and "\<not> list_ex read_failed evs"
    and "m_reply c0 = 0" and "history c0 = []"
    and "1 \<le> k" and "k \<le> length (history c)" and "k < 2 ^ 31"
  shows "m_reply c = of_nat (length (history c)) \<and>
         (\<exists>req. history c ! (k - 1) =
            ''HTTP/1.1 200 OK'' @ CRLF @
            ''Keep-Alive: timeout=10 max=400'' @ CRLF @
            ''Content-Length: '' @
              dec (length (''<html><body>'' @ body_fmt (of_nat k) (m_instance c0) req @
                           ''</body></html>'' @ [LF])) @ CRLF @
            ''Content-Type: text/html'' @ CRLF @
            ''X-Connection: '' @ fmt_d (m_instance c0) @ CRLF @
            ''X-Request: '' @ fmt_lu req @ CRLF @
            ''X-Reply: '' @ dec k @ CRLF @
            CRLF @
            ''<html><body>'' @ body_fmt (of_nat k) (m_instance c0) req @ ''</body></html>'' @ [LF])"
proof -
  from assms(3,4) have "numbered c0" by (simp add: numbered_def)
  from numbered_run[OF this assms(1,2)] have n: "numbered c" and i: "m_instance c = m_instance c0"
    by simp_all
  from assms(5,6) have "k - 1 < length (history c)" by simp
  with n i obtain req where "history c ! (k - 1) = reply_text (m_instance c0) req (Suc (k - 1))"
    by (auto simp: numbered_def)
  with assms(5) have "history c ! (k - 1) = reply_text (m_instance c0) req k" by simp
  then have "history c ! (k - 1) =
            ''HTTP/1.1 200 OK'' @ CRLF @
            ''Keep-Alive: timeout=10 max=400'' @ CRLF @
            ''Content-Length: '' @
              dec (length (''<html><body>'' @ body_fmt (of_nat k) (m_instance c0) req @
                           ''</body></html>'' @ [LF])) @ CRLF @
            ''Content-Type: text/html'' @ CRLF @
            ''X-Connection: '' @ fmt_d (m_instance c0) @ CRLF @
            ''X-Request: '' @ fmt_lu req @ CRLF @
            ''X-Reply: '' @ dec k @ CRLF @
            CRLF @
            ''<html><body>'' @ body_fmt (of_nat k) (m_instance c0) req @ ''</body></html>'' @ [LF]"
    by (simp only: reply_text_def reply_unfold fmt_d_of_nat[OF assms(7)])
  with n show ?thesis unfolding numbered_def by blast
qed

theorem reply_counter_sequence_witness:
  "\<exists>c. run [Read success (''GET / HTTP/1.1'' @ CRLF @ ''X-Sleep: 5'' @ CRLF @ CRLF @
                           ''GET / HTTP/1.1'' @ CRLF @ CRLF)] (start (create 1)) = Inr c \<and>
       length (history c) = 2 \<and> m_reply c = 2 \<and>
       (\<exists>req. history c ! 1 =
            ''HTTP/1.1 200 OK'' @ CRLF @
            ''Keep-Alive: timeout=10 max=400'' @ CRLF @
            ''Content-Length: '' @
              dec (length (''<html><body>'' @ body_fmt 2 1 req @ ''</body></html>'' @ [LF])) @ CRLF @
            ''Content-Type: text/html'' @ CRLF @
            ''X-Connection: '' @ fmt_d 1 @ CRLF @
            ''X-Request: '' @ fmt_lu req @ CRLF @
            ''X-Reply: '' @ dec 2 @ CRLF @
            CRLF @
            ''<html><body>'' @ body_fmt 2 1 req @ ''</body></html>'' @ [LF])"
proof -
  let ?evs = "[Read success (''GET / HTTP/1.1'' @ CRLF @ ''X-Sleep: 5'' @ CRLF @ CRLF @
                           ''GET / HTTP/1.1'' @ CRLF @ CRLF)]"
  obtain c where r: "run ?evs (start (create 1)) = Inr c" and l: "length (history c) = 2"
    by (simp add: parse_eval conn_eval history_def wire_def pending_def)
  have 1: "\<not> list_ex read_failed ?evs" by simp
  have 2: "m_reply (start (create 1)) = 0" "history (start (create 1)) = []"
    and 3: "m_instance (start (create 1)) = 1"
    by (simp_all add: start_def create_def history_def wire_def pending_def async_read_some_def)
  from reply_counter_sequence[OF r 1 2, of 2] r l show ?thesis
    unfolding 3 by simp
qed

subsection \<open>C5: a malformed header line\<close>




subsection \<open>C6: values without a number\<close>

text \<open>
  Claim C6, as amended. The claim says that every \<^verbatim>\<open>X-Sleep\<close> or \<^verbatim>\<open>X-Request\<close>
  value that fails to parse as a non-negative integer is stored as 0. The server stores
  what \<^verbatim>\<open>strtoul\<close> returns, so this holds for the values without a number: when the
  value, after optional white space and an optional sign, does not start with a decimal
  digit, the stored sleep duration, respectively the stored request identifier, is 0.
\<close>

theorem value_without_number_is_zero:
  assumes "no_number v" and "CR \<notin> set v" and "LF \<notin> set v"
    and "eom_ok c" and "line_start (m_header c)"
  shows "(\<exists>c'. read_loop (''X-Sleep: '' @ v @ CRLF) c = Inr c' \<and> m_sleep c' = 0) \<and>
         (\<exists>c'. read_loop (''X-Request: '' @ v @ CRLF) c = Inr c' \<and> m_request c' = 0)"
proof -
  from eom_ok_at[OF assms(4)] obtain n where n: "n < 4" "m_eom c = eom_at n" by blast
  from assms(2,3) have w: "wf_line (Field ''X-Sleep'' v)" "wf_line (Field ''X-Request'' v)"
    by simp_all
  from field_line_read[OF n(2,1) assms(5) w(1)] field_line_read[OF n(2,1) assms(5) w(2)]
    strtoul_no_number[OF assms(1)]
  show ?thesis by simp
qed

theorem value_without_number_is_zero_witness:
  "no_number ''abc'' \<and> eom_ok (start (create 1)) \<and> line_start (m_header (start (create 1))) \<and>
   (\<exists>c'. read_loop (''X-Sleep: abc'' @ CRLF) (start (create 1)) = Inr c' \<and> m_sleep c' = 0) \<and>
   (\<exists>c'. read_loop (''X-Request: abc'' @ CRLF) (start (create 1)) = Inr c' \<and> m_request c' = 0)"
proof -
  have 1: "no_number ''abc''"
    by (simp add: no_number_def subject_def skip_sign_def c_str_def isspace_def isdigit_def)
  have 2: "CR \<notin> set ''abc''" "LF \<notin> set ''abc''" by simp_all
  have 3: "line_start (m_header (start (create 1)))"
    by (simp add: start_def create_def line_start_def)
  from value_without_number_is_zero[OF 1 2 eom_ok_create(2) 3] 1 eom_ok_create(2)[of 1] 3
  show ?thesis by simp
qed

text \<open>
  The claim as stated fails: \<^verbatim>\<open>-1\<close> is not a non-negative integer and is stored as
  \<^verbatim>\<open>ULONG_MAX\<close>, since \<^verbatim>\<open>strtoul\<close> negates in \<^verbatim>\<open>unsigned long\<close>; \<^verbatim>\<open>7up\<close> is no
  integer and is stored as 7, since \<^verbatim>\<open>strtoul\<close> reads the digits at the start.
\<close>

theorem unparsable_value_counterexample:
  "\<not> nonneg_integer ''-1'' \<and>
   map_sum id (\<lambda>c. unat (m_sleep c))
     (handle_read success (''X-Sleep: -1'' @ CRLF) (start (create 1))) = Inr 18446744073709551615 \<and>
   \<not> nonneg_integer ''7up'' \<and>
   map_sum id (\<lambda>c. unat (m_request c))
     (handle_read success (''X-Request: 7up'' @ CRLF) (start (create 1))) = Inr 7"
proof -
  have a: "\<not> nonneg_integer ''-1''" "\<not> nonneg_integer ''7up''"
    by (simp_all add: nonneg_integer_def isspace_def isdigit_def)
  have b: "map_sum id (\<lambda>c. unat (m_sleep c))
     (handle_read success (''X-Sleep: -1'' @ CRLF) (start (create 1))) = Inr 18446744073709551615"
    by (simp add: parse_eval conn_eval unsigned_minus_1_eq_mask mask_eq_exp_minus_1)
  have c: "map_sum id (\<lambda>c. unat (m_request c))
     (handle_read success (''X-Request: 7up'' @ CRLF) (start (create 1))) = Inr 7"
    by (simp add: parse_eval conn_eval)
  from a b c show ?thesis by blast
qed

subsection \<open>C7: a failed read\<close>

text \<open>
  Claim C7. When a read completes with an error other than the cancellation, the
  connection discards the replies that are queued, closes its socket and sets its closed
  flag; it issues no further read and no write. Whatever events follow, nothing more is
  written, and unless a read delivers bytes again (none has been issued) the state does not
  change at all: the queue stays empty.
\<close>

theorem read_error_discards_pending:
  assumes "e \<noteq> success" "e \<noteq> operation_aborted"
  shows "\<exists>c'. handle_read e buf c = Inr c' \<and>
           c' = c\<lparr>m_reply_queue := [], m_socket := (m_socket c)\<lparr>is_open := False\<rparr>, m_closed := True\<rparr> \<and>
           (\<forall>evs c''. run evs c' = Inr c'' \<longrightarrow>
              m_closed c'' \<and> wire c'' = wire c \<and> (\<not> list_ex read_ok evs \<longrightarrow> c'' = c'))"
proof -
  let ?t = "c\<lparr>m_reply_queue := [], m_socket := (m_socket c)\<lparr>is_open := False\<rparr>, m_closed := True\<rparr>"
  have h: "handle_read e buf c = Inr ?t"
    using assms by (simp add: handle_read_def close_def)
  have w: "wire ?t = wire c" by (simp add: wire_def)
  have "m_closed c'' \<and> wire c'' = wire c \<and> (\<not> list_ex read_ok evs \<longrightarrow> c'' = ?t)"
    if r: "run evs ?t = Inr c''" for evs c''
  proof -
    from run_closed[OF r] w have "m_closed c'' \<and> wire c'' = wire c" by simp
    moreover have "c'' = ?t" if "\<not> list_ex read_ok evs"
      by (rule torn_down_run[OF _ _ _ r that]) simp_all
    ultimately show ?thesis by blast
  qed
  with h show ?thesis by blast
qed

theorem read_error_discards_pending_witness:
  "other_error \<noteq> success \<and> other_error \<noteq> operation_aborted \<and>
   (\<exists>c'. handle_read other_error []
           ((start (create 1))\<lparr>m_reply_queue :=
               [\<lparr>m_timer = timer_waiting 500, m_str = ''r'', m_sleep = 500\<rparr>]\<rparr>) = Inr c' \<and>
         m_reply_queue c' = [] \<and> \<not> is_open (m_socket c') \<and> m_closed c' \<and>
         (\<forall>evs c''. run evs c' = Inr c'' \<longrightarrow> wire c'' = []))"
  using read_error_discards_pending[of other_error "[]"
      "(start (create 1))\<lparr>m_reply_queue :=
               [\<lparr>m_timer = timer_waiting 500, m_str = ''r'', m_sleep = 500\<rparr>]\<rparr>"]
  by (simp add: start_def create_def async_read_some_def wire_def)

subsection \<open>C8: a timer that completes after the teardown\<close>

text \<open>
  The two guards of the source hold in every state: the timer callback called with an
  error code (the cancellation) returns the connection as it is, and a flush of a
  connection whose closed flag is set returns it as it is.
\<close>

lemma timed_out_cancelled: "e \<noteq> success \<Longrightarrow> timed_out e i c = Inr c"
  by (simp add: timed_out_def)

lemma process_replies_closed: "m_closed c \<Longrightarrow> process_replies c = c"
  by (simp add: process_replies_def)

text \<open>
  Claim C8. A delay timer that completes after its connection has been torn down is
  always a no-op. The guards cover the cancelled timer and the flush, not the timer that
  completes without an error code. A request with \<^verbatim>\<open>X-Sleep: 5\<close> leaves one sleeping
  reply in the queue, whose timer callback is bound to the address of that queue element.
  A failed read then clears the queue, which destroys the reply, closes the socket and sets
  the closed flag. When the timer had expired before, its callback still runs with the
  success code: \<^verbatim>\<open>Reply::timed_out\<close> passes its guard and acts on the destroyed reply,
  before any test of the closed flag. That is no no-op but the failure \<open>dangling_reply\<close>.
\<close>

theorem timer_after_teardown_faults:
  "map_sum id (\<lambda>c. (m_closed c, map is_sleeping (m_reply_queue c), wire c))
     (run [Read success (''GET / HTTP/1.1'' @ CRLF @ ''X-Sleep: 5'' @ CRLF @ CRLF)]
        (start (create 1))) = Inr (False, [True], []) \<and>
   map_sum id (\<lambda>c. (m_closed c, m_reply_queue c, wire c))
     (run [Read success (''GET / HTTP/1.1'' @ CRLF @ ''X-Sleep: 5'' @ CRLF @ CRLF),
           Read other_error []] (start (create 1))) = Inr (True, [], []) \<and>
   run [Read success (''GET / HTTP/1.1'' @ CRLF @ ''X-Sleep: 5'' @ CRLF @ CRLF),
        Read other_error [], Timer success 0] (start (create 1)) = Inl dangling_reply"
  by (simp add: parse_eval conn_eval wire_def close_def)

subsection \<open>C9: the listening port\<close>

text \<open>
  Claim C9, as amended. The claim says that a command-line flag sets the port. The
  server has no such flag: \<^verbatim>\<open>main\<close> takes no arguments and the acceptor is bound to
  port 9001 in the constructor of \<^verbatim>\<open>tcp_server\<close>. Whatever the argument vector, the
  server listens on port 9001.
\<close>

theorem server_port_fixed: "port (m_acceptor (fst (exec argv))) = 9001"
  by (simp add: exec_def main_def tcp_server_init_def start_accept_def Let_def)

text \<open>
  The claim as stated fails: launched with \<^verbatim>\<open>-p 9000\<close>, the flag of the client
  driver of this repository, the server does not listen on port 9000.
\<close>

theorem port_flag_counterexample:
  "port (m_acceptor (fst (exec [''./http_server'', ''-p'', ''9000'']))) \<noteq> 9000"
  by (simp add: exec_def main_def tcp_server_init_def start_accept_def Let_def)

subsection \<open>C10: the Content-Length header\<close>

text \<open>
  Claim C10. Every reply that \<^verbatim>\<open>queue_reply\<close> builds has a Content-Length equal to
  the number of bytes after the blank line: the length of the text
  \<^verbatim>\<open>Reply <seq> on connection <id> for request #<request-id>\<close> plus 27. Neither
  assertion of \<^verbatim>\<open>queue_reply\<close> fails and neither buffer truncates the text.
\<close>

theorem content_length_exact:
  "let text = body_fmt (m_reply c + 1) (m_instance c) (m_request c);
       doc = ''<html><body>'' @ text @ ''</body></html>'' @ [LF]
   in length doc = length text + 27 \<and>
      (\<exists>c'. queue_reply c = Inr c' \<and>
            history c' = history c @
              [''HTTP/1.1 200 OK'' @ CRLF @
               ''Keep-Alive: timeout=10 max=400'' @ CRLF @
               ''Content-Length: '' @ dec (length doc) @ CRLF @
               ''Content-Type: text/html'' @ CRLF @
               ''X-Connection: '' @ fmt_d (m_instance c) @ CRLF @
               ''X-Request: '' @ fmt_lu (m_request c) @ CRLF @
               ''X-Reply: '' @ fmt_d (m_reply c + 1) @ CRLF @
               CRLF @ doc])"
proof -
  obtain c' where c': "queue_reply c = Inr c'"
    using queue_reply_total by blast
  have "history c' = history c @ [reply_of c]"
    by (rule queue_reply_history[OF c'])
  then have "history c' = history c @
              [''HTTP/1.1 200 OK'' @ CRLF @
               ''Keep-Alive: timeout=10 max=400'' @ CRLF @
               ''Content-Length: '' @
                 dec (length (''<html><body>'' @ body_of c @ ''</body></html>'' @ [LF])) @ CRLF @
               ''Content-Type: text/html'' @ CRLF @
               ''X-Connection: '' @ fmt_d (m_instance c) @ CRLF @
               ''X-Request: '' @ fmt_lu (m_request c) @ CRLF @
               ''X-Reply: '' @ fmt_d (m_reply c + 1) @ CRLF @
               CRLF @ ''<html><body>'' @ body_of c @ ''</body></html>'' @ [LF]]"
    by (simp only: reply_of_unfold)
  with c' have "\<exists>c'. queue_reply c = Inr c' \<and> history c' = history c @
              [''HTTP/1.1 200 OK'' @ CRLF @
               ''Keep-Alive: timeout=10 max=400'' @ CRLF @
               ''Content-Length: '' @
                 dec (length (''<html><body>'' @ body_of c @ ''</body></html>'' @ [LF])) @ CRLF @
               ''Content-Type: text/html'' @ CRLF @
               ''X-Connection: '' @ fmt_d (m_instance c) @ CRLF @
               ''X-Request: '' @ fmt_lu (m_request c) @ CRLF @
               ''X-Reply: '' @ fmt_d (m_reply c + 1) @ CRLF @
               CRLF @ ''<html><body>'' @ body_of c @ ''</body></html>'' @ [LF]]"
    by blast
  then show ?thesis
    unfolding Let_def body_of_def by (intro conjI doc_length)
qed

end
